theory Spec2Isabelle
  imports Complex_Main "HOL-Library.Multiset" "HOL-Library.Product_Lexorder"
    "HOL-Library.Char_ord" "HOL-Library.List_Lexorder"
begin

section \<open>Characters and the string primitives of Python that app.py calls\<close>

text \<open>
  A Python \<open>str\<close> is a sequence of code points. The model covers the code points
  U+0000 to U+00FF: a \<^typ>\<open>char\<close> is read as the code point with the same number, and the
  character classes below are those of CPython on that range (\<open>str.isspace\<close>, the
  \<open>\<^verbatim>\<open>\s\<close>\<close> and \<open>\<^verbatim>\<open>\w\<close>\<close> of \<open>re\<close> on \<open>str\<close> patterns, \<open>str.lower\<close>,
  the line boundaries of \<open>str.splitlines\<close>).
\<close>

definition code :: "char \<Rightarrow> nat" where
  "code c = of_char c"

definition NL :: char where
  "NL = CHR 0x0A"

definition CR :: char where
  "CR = CHR 0x0D"

definition is_space :: "char \<Rightarrow> bool" where
  "is_space c = (let n = code c in
     (9 \<le> n \<and> n \<le> 13) \<or> (28 \<le> n \<and> n \<le> 32) \<or> n = 133 \<or> n = 160)"

definition is_linebreak :: "char \<Rightarrow> bool" where
  "is_linebreak c = (let n = code c in
     (10 \<le> n \<and> n \<le> 13) \<or> (28 \<le> n \<and> n \<le> 30) \<or> n = 133)"

definition is_alnum :: "char \<Rightarrow> bool" where
  "is_alnum c = (let n = code c in
     (48 \<le> n \<and> n \<le> 57) \<or> (65 \<le> n \<and> n \<le> 90) \<or> (97 \<le> n \<and> n \<le> 122) \<or>
     n = 170 \<or> n = 178 \<or> n = 179 \<or> n = 181 \<or> n = 185 \<or> n = 186 \<or>
     (188 \<le> n \<and> n \<le> 190) \<or> (192 \<le> n \<and> n \<le> 214) \<or> (216 \<le> n \<and> n \<le> 246) \<or>
     248 \<le> n)"

definition is_word :: "char \<Rightarrow> bool" where
  "is_word c = (is_alnum c \<or> c = CHR ''_'')"

definition lower_char :: "char \<Rightarrow> char" where
  "lower_char c = (let n = code c in
     if (65 \<le> n \<and> n \<le> 90) \<or> (192 \<le> n \<and> n \<le> 222 \<and> n \<noteq> 215)
     then char_of (n + 32) else c)"

definition lower :: "string \<Rightarrow> string" where
  "lower s = map lower_char s"

fun startswith :: "string \<Rightarrow> string \<Rightarrow> bool" where
  "startswith s [] = True"
| "startswith [] (p # ps) = False"
| "startswith (c # cs) (p # ps) = (c = p \<and> startswith cs ps)"

definition rstrip :: "string \<Rightarrow> string \<Rightarrow> string" where
  "rstrip s chars = rev (dropWhile (\<lambda>c. c \<in> set chars) (rev s))"

definition strip :: "string \<Rightarrow> string" where
  "strip s = rev (dropWhile is_space (rev (dropWhile is_space s)))"

fun join :: "string \<Rightarrow> string list \<Rightarrow> string" where
  "join sep [] = []"
| "join sep [x] = x"
| "join sep (x # y # ys) = x @ sep @ join sep (y # ys)"

fun split :: "char \<Rightarrow> string \<Rightarrow> string list" where
  "split d [] = [[]]"
| "split d (c # cs) =
     (if c = d then [] # split d cs
      else (case split d cs of [] \<Rightarrow> [[c]] | w # ws \<Rightarrow> (c # w) # ws))"

text \<open>
  \<open>str.splitlines\<close>: the text up to the next line boundary is a line; the boundary is
  dropped, a carriage return followed by a line feed counting as one boundary; nothing
  follows a boundary that ends the string.
\<close>

function splitlines :: "string \<Rightarrow> string list" where
  "splitlines s =
     (if s = [] then []
      else takeWhile (\<lambda>c. \<not> is_linebreak c) s #
        (case dropWhile (\<lambda>c. \<not> is_linebreak c) s of
           [] \<Rightarrow> []
         | c # r \<Rightarrow>
             (case r of
                [] \<Rightarrow> []
              | d # r' \<Rightarrow> if c = CR \<and> d = NL then splitlines r' else splitlines r)))"
  by pat_completeness auto
termination
proof (relation "measure length")
  show "wf (measure length)" by simp
next
  fix s :: string and c r d r'
  assume "dropWhile (\<lambda>c. \<not> is_linebreak c) s = c # r" and "r = d # r'"
  then have "length (c # d # r') \<le> length s"
    by (metis length_dropWhile_le)
  then show "(r', s) \<in> measure length" by simp
next
  fix s :: string and c r d r'
  assume "dropWhile (\<lambda>c. \<not> is_linebreak c) s = c # r"
  then have "length (c # r) \<le> length s"
    by (metis length_dropWhile_le)
  then show "(r, s) \<in> measure length" by simp
qed

declare splitlines.simps [simp del]

function str_nat :: "nat \<Rightarrow> string" where
  "str_nat n =
     (if n < 10 then [char_of (48 + n)]
      else str_nat (n div 10) @ [char_of (48 + n mod 10)])"
  by pat_completeness auto
termination
  by (relation "measure id") auto

declare str_nat.simps [simp del]

section \<open>os.path\<close>

fun rfind :: "char \<Rightarrow> string \<Rightarrow> nat option" where
  "rfind c [] = None"
| "rfind c (x # xs) =
     (case rfind c xs of
        Some i \<Rightarrow> Some (Suc i)
      | None \<Rightarrow> if x = c then Some 0 else None)"

definition basename :: "string \<Rightarrow> string" where
  "basename p = (case rfind CHR ''/'' p of None \<Rightarrow> p | Some i \<Rightarrow> drop (Suc i) p)"

definition splitext :: "string \<Rightarrow> string \<times> string" where
  "splitext p =
     (case rfind CHR ''.'' p of
        None \<Rightarrow> (p, [])
      | Some dotIndex \<Rightarrow>
          (let filenameIndex = (case rfind CHR ''/'' p of None \<Rightarrow> 0 | Some i \<Rightarrow> Suc i)
           in if list_ex (\<lambda>c. c \<noteq> CHR ''.'') (drop filenameIndex (take dotIndex p))
              then (take dotIndex p, drop dotIndex p)
              else (p, [])))"

definition path_join :: "string \<Rightarrow> string \<Rightarrow> string" where
  "path_join a b =
     (if startswith b ''/'' then b
      else if a = [] \<or> last a = CHR ''/'' then a @ b
      else a @ ''/'' @ b)"

section \<open>Regular expressions as \<open>re\<close> matches them\<close>

text \<open>
  The matcher backtracks as \<open>re\<close> does: alternatives left to right, repetitions greedy,
  the first complete match wins. A cursor is the character before the position (for
  \<open>\<^verbatim>\<open>\b\<close>\<close>) and the text from the position on. \<open>lit\<close> is a literal under the
  \<open>i\<close> flag of the pattern.
\<close>

datatype regex =
    Chr "char \<Rightarrow> bool"
  | WordB
  | Eps
  | Seq regex regex
  | Alt regex regex
  | Opt regex
  | Star regex

type_synonym cursor = "char option \<times> string"

definition at_boundary :: "cursor \<Rightarrow> bool" where
  "at_boundary st =
     ((case fst st of None \<Rightarrow> False | Some c \<Rightarrow> is_word c) \<noteq>
      (case snd st of [] \<Rightarrow> False | c # cs \<Rightarrow> is_word c))"

fun rmatch :: "regex \<Rightarrow> (cursor \<Rightarrow> cursor option) \<Rightarrow> cursor \<Rightarrow> cursor option" where
  "rmatch (Chr P) k st =
     (case snd st of [] \<Rightarrow> None | c # cs \<Rightarrow> if P c then k (Some c, cs) else None)"
| "rmatch WordB k st = (if at_boundary st then k st else None)"
| "rmatch Eps k st = k st"
| "rmatch (Seq a b) k st = rmatch a (\<lambda>st'. rmatch b k st') st"
| "rmatch (Alt a b) k st =
     (case rmatch a k st of Some r \<Rightarrow> Some r | None \<Rightarrow> rmatch b k st)"
| "rmatch (Opt a) k st =
     (case rmatch a k st of Some r \<Rightarrow> Some r | None \<Rightarrow> k st)"
| "rmatch (Star a) k st =
     (case rmatch a (\<lambda>st'. if length (snd st') < length (snd st)
                            then rmatch (Star a) k st' else None) st of
        Some r \<Rightarrow> Some r
      | None \<Rightarrow> k st)"

declare rmatch.simps(7) [simp del]

definition lit :: "char \<Rightarrow> regex" where
  "lit c = Chr (\<lambda>d. lower_char d = lower_char c)"

definition lits :: "string \<Rightarrow> regex" where
  "lits s = foldr (\<lambda>c r. Seq (lit c) r) s Eps"

definition Plus :: "regex \<Rightarrow> regex" where
  "Plus r = Seq r (Star r)"

definition no_paren_class :: "char \<Rightarrow> bool" where
  "no_paren_class c =
     (\<not> is_space c \<and>
      c \<notin> set [CHR ''<'', CHR ''>'', CHR 0x22, CHR 0x27, CHR ''('', CHR '')''])"

definition paren_class :: "char \<Rightarrow> bool" where
  "paren_class c = (\<not> is_space c \<and> c \<notin> set [CHR ''<'', CHR ''>'', CHR 0x22, CHR 0x27])"

definition URL_REGEX :: regex where
  "URL_REGEX =
     Seq WordB
       (Seq (Alt (Seq (lits ''http'') (Seq (Opt (lit CHR ''s'')) (lits ''://'')))
                 (Seq (lits ''www'') (lit CHR ''.'')))
       (Seq (Plus (Chr no_paren_class))
            (Star (Seq (lit CHR ''('')
                  (Seq (Star (Chr paren_class))
                  (Seq (lit CHR '')'')
                       (Star (Chr paren_class))))))))"

text \<open>
  \<open>finditer\<close>: the matches from left to right, each search starting where the last match
  ended; group 1 is the text the match consumed. After an empty match the search moves on
  by one character.
\<close>

function finditer :: "regex \<Rightarrow> char option \<Rightarrow> string \<Rightarrow> string list" where
  "finditer r p s =
     (case rmatch r Some (p, s) of
        Some (p', s') \<Rightarrow>
          if length s' < length s
          then take (length s - length s') s # finditer r p' s'
          else [] # (case s of [] \<Rightarrow> [] | c # cs \<Rightarrow> finditer r (Some c) cs)
      | None \<Rightarrow> (case s of [] \<Rightarrow> [] | c # cs \<Rightarrow> finditer r (Some c) cs))"
  by pat_completeness auto
termination
  by (relation "measure (\<lambda>(r, p, s). length s)") auto

declare finditer.simps [simp del]

section \<open>app.py\<close>

definition SUPPORTED_EXTS :: "string set" where
  "SUPPORTED_EXTS =
     {''.png'', ''.jpg'', ''.jpeg'', ''.tif'', ''.tiff'', ''.bmp'', ''.gif'', ''.heic''}"

record dir_entry =
  name :: string
  is_file :: bool

text \<open>
  The file system as \<open>list_images\<close> sees it: \<open>expanduser\<close>, and \<open>scandir\<close>, which is
  \<open>None\<close> where \<open>os.path.isdir\<close> is false and otherwise the entries in the order the
  operating system yields them.
\<close>

record filesystem =
  expanduser :: "string \<Rightarrow> string"
  scandir :: "string \<Rightarrow> dir_entry list option"

definition eligible :: "dir_entry \<Rightarrow> bool" where
  "eligible entry =
     (is_file entry \<and> \<not> startswith (name entry) ''.'' \<and>
      lower (snd (splitext (name entry))) \<in> SUPPORTED_EXTS)"

definition list_images :: "filesystem \<Rightarrow> string \<Rightarrow> string list" where
  "list_images fs in_dir =
     (let in_dir = expanduser fs in_dir in
      case scandir fs in_dir of
        None \<Rightarrow> []
      | Some entries \<Rightarrow>
          sort_key (\<lambda>p. lower (basename p))
            (map (\<lambda>entry. path_join in_dir (name entry)) (filter eligible entries)))"

text \<open>
  What Vision returns for one image: no image could be read, the request failed, or the
  observations (none when \<open>results()\<close> is \<open>None\<close>). An observation has the origin
  of its bounding box and the list \<open>topCandidates_(1)\<close> gives. The coordinates are
  floats that the code only negates and compares; they are modelled as rationals.
\<close>

record observation =
  origin_x :: rat
  origin_y :: rat
  topCandidates :: "string list"

datatype vision = NoImage | RequestFailed | Results "observation list"

definition key :: "observation \<Rightarrow> rat \<times> rat" where
  "key obs = (- origin_y obs, origin_x obs)"

fun text_lines :: "observation list \<Rightarrow> string list" where
  "text_lines [] = []"
| "text_lines (obs # rest) =
     (case topCandidates obs of
        [] \<Rightarrow> text_lines rest
      | s # cands \<Rightarrow> if s \<noteq> [] then s # text_lines rest else text_lines rest)"

definition ocr_with_vision :: "(string \<Rightarrow> string list \<Rightarrow> vision) \<Rightarrow> string \<Rightarrow> string list \<Rightarrow> string" where
  "ocr_with_vision engine path langs =
     (case engine path langs of
        NoImage \<Rightarrow> []
      | RequestFailed \<Rightarrow> []
      | Results results \<Rightarrow> join [NL] (text_lines (sort_key key results)))"

definition extract_urls :: "string \<Rightarrow> string list" where
  "extract_urls text =
     map (\<lambda>m. let u = rstrip m ''.,;:!)?]''
              in if startswith u ''www.'' then ''http://'' @ u else u)
       (finditer URL_REGEX None text)"

text \<open>
  What a run does to the outside world, in the order it does it: \<open>os.makedirs\<close> with
  \<open>exist_ok\<close>, a file written in full (path and content), a line printed. Failures of
  the operating system while creating a directory or writing a file are outside the
  model.
\<close>

datatype effect = Makedirs string | WriteText string string | Print string

fun written :: "effect list \<Rightarrow> (string \<times> string) list" where
  "written [] = []"
| "written (WriteText path content # es) = (path, content) # written es"
| "written (e # es) = written es"

fun printed :: "effect list \<Rightarrow> string list" where
  "printed [] = []"
| "printed (Print s # es) = s # printed es"
| "printed (e # es) = printed es"

definition parse_langs :: "string \<Rightarrow> string list" where
  "parse_langs lang_str =
     (let langs = (if lang_str \<noteq> []
                   then map strip (filter (\<lambda>s. strip s \<noteq> []) (split CHR '','' lang_str))
                   else [])
      in if langs = [] then [''en-US'', ''pl-PL''] else langs)"

definition section_md :: "string \<Rightarrow> string \<Rightarrow> string list \<Rightarrow> string" where
  "section_md base text urls =
     ''## '' @ base @ [NL, NL] @ ''```'' @ [NL] @ text @ [NL] @ ''```'' @ [NL] @
     (if urls \<noteq> []
      then [NL] @ ''**Links detected:**'' @ [NL] @ join [NL] (map (\<lambda>u. ''- '' @ u) urls) @ [NL]
      else [])"

record loop_state =
  all_sections :: "string list"
  all_urls :: "(string \<times> string) list"
  log :: "effect list"

definition process_image ::
  "(string \<Rightarrow> string list \<Rightarrow> vision) \<Rightarrow> string list \<Rightarrow> string \<Rightarrow> string \<Rightarrow> loop_state \<Rightarrow> loop_state" where
  "process_image engine langs txt_dir p st =
     (let base = fst (splitext (basename p));
          text = ocr_with_vision engine p langs;
          txt_path = path_join txt_dir (base @ ''.txt'');
          urls = extract_urls text
      in \<lparr> all_sections = all_sections st @ [section_md base text urls],
           all_urls = all_urls st @ map (\<lambda>u. (base, u)) urls,
           log = log st @
             [WriteText txt_path text,
              Print (''OCR: '' @ basename p @ '' -> '' @ txt_path @ '' ('' @
                     str_nat (length text) @ '' chars, '' @
                     str_nat (length urls) @ '' links)'')] \<rparr>)"

fun process_images ::
  "(string \<Rightarrow> string list \<Rightarrow> vision) \<Rightarrow> string list \<Rightarrow> string \<Rightarrow> string list \<Rightarrow> loop_state \<Rightarrow> loop_state" where
  "process_images engine langs txt_dir [] st = st"
| "process_images engine langs txt_dir (p # imgs) st =
     process_images engine langs txt_dir imgs (process_image engine langs txt_dir p st)"

definition separator :: string where
  "separator = [NL, NL] @ ''---'' @ [NL, NL]"

definition combined_md :: "string list \<Rightarrow> string" where
  "combined_md sections = ''# OCR Output'' @ [NL, NL] @ join separator sections @ [NL]"

definition plain_block :: "string \<Rightarrow> string" where
  "plain_block section =
     strip (join [NL]
       (filter (\<lambda>ln. \<not> (startswith ln ''```'' \<or> startswith ln ''**Links detected:**''))
          (splitlines section)))"

definition combined_txt :: "string list \<Rightarrow> string" where
  "combined_txt sections = join separator (map plain_block sections) @ [NL]"

fun dedup :: "(string \<times> string) list \<Rightarrow> string set \<Rightarrow> string list \<Rightarrow> string list" where
  "dedup [] seen dedup_urls = dedup_urls"
| "dedup ((f, u) # rest) seen dedup_urls =
     (if u \<notin> seen then dedup rest (insert u seen) (dedup_urls @ [u])
      else dedup rest seen dedup_urls)"

definition urls_txt :: "(string \<times> string) list \<Rightarrow> string" where
  "urls_txt occurrences =
     (let dedup_urls = dedup occurrences {} []
      in join [NL] dedup_urls @ (if dedup_urls \<noteq> [] then [NL] else []))"

text \<open>
  \<open>csv.writer\<close> with the default dialect: a field holding a comma, a double quote, a
  carriage return or a line feed is quoted, its double quotes doubled; fields are joined by
  commas and the row ends with carriage return and line feed.
\<close>

definition csv_field :: "string \<Rightarrow> string" where
  "csv_field f =
     (if list_ex (\<lambda>c. c \<in> set [CHR '','', CHR 0x22, CR, NL]) f
      then [CHR 0x22] @ concat (map (\<lambda>c. if c = CHR 0x22 then [c, c] else [c]) f) @ [CHR 0x22]
      else f)"

definition writerow :: "string list \<Rightarrow> string" where
  "writerow row = join '','' (map csv_field row) @ [CR, NL]"

fun writerows :: "(string \<times> string) list \<Rightarrow> string" where
  "writerows [] = []"
| "writerows ((fname, u) # rest) = writerow [fname, u] @ writerows rest"

definition urls_csv :: "(string \<times> string) list \<Rightarrow> string" where
  "urls_csv occurrences = writerow [''file'', ''url''] @ writerows occurrences"

definition run_images ::
  "(string \<Rightarrow> string list \<Rightarrow> vision) \<Rightarrow> string list \<Rightarrow> string \<Rightarrow> string list \<Rightarrow> effect list" where
  "run_images engine langs out_dir imgs =
     (let txt_dir = path_join out_dir ''txt'';
          st = process_images engine langs txt_dir imgs
                 \<lparr> all_sections = [], all_urls = [], log = [Makedirs txt_dir] \<rparr>
      in log st @
         [WriteText (path_join out_dir ''all_text.md'') (combined_md (all_sections st)),
          WriteText (path_join out_dir ''all_text.txt'') (combined_txt (all_sections st)),
          WriteText (path_join out_dir ''urls.txt'') (urls_txt (all_urls st)),
          WriteText (path_join out_dir ''urls.csv'') (urls_csv (all_urls st)),
          Print ([NL] @ ''Done.'' @ [NL] @
                 ''- Images: '' @ str_nat (length imgs) @ [NL] @
                 ''- Per-image text: '' @ txt_dir @ [NL] @
                 ''- Combined markdown: '' @ path_join out_dir ''all_text.md'' @ [NL] @
                 ''- Combined text: '' @ path_join out_dir ''all_text.txt'' @ [NL] @
                 ''- URLs (dedup): '' @ path_join out_dir ''urls.txt'' @ [NL] @
                 ''- URL map CSV: '' @ path_join out_dir ''urls.csv'')])"

definition run ::
  "filesystem \<Rightarrow> (string \<Rightarrow> string list \<Rightarrow> vision) \<Rightarrow> string \<Rightarrow> string \<Rightarrow> string \<Rightarrow> effect list" where
  "run fs engine in_dir out_dir lang_str =
     (let out_dir = expanduser fs out_dir;
          imgs = list_images fs in_dir
      in if imgs = [] then [Makedirs out_dir, Print ''No images found.'']
         else Makedirs out_dir # run_images engine (parse_langs lang_str) out_dir imgs)"

text \<open>
  The script body: the exit status of the process and its effects. \<open>argv\<close> is
  \<open>sys.argv\<close>, the script name first.
\<close>

definition main :: "filesystem \<Rightarrow> (string \<Rightarrow> string list \<Rightarrow> vision) \<Rightarrow> string list \<Rightarrow> nat \<times> effect list" where
  "main fs engine argv =
     (if length argv < 3
      then (1, [Print (''Usage: python3 app.py <input_dir> <output_dir> '' @
                       [CHR 0x22] @ ''en-US,pl-PL'' @ [CHR 0x22])])
      else (0, run fs engine (expanduser fs (argv ! 1)) (expanduser fs (argv ! 2))
                 (if 4 \<le> length argv then argv ! 3 else ''en-US,pl-PL'')))"

section \<open>Predicates used to state the properties\<close>

text \<open>
  \<open>chars_in Q r\<close>: every character \<open>r\<close> can consume satisfies \<open>Q\<close>;
  \<open>nullable r\<close>: \<open>r\<close> may match without consuming; \<open>reaches Q nul st st'\<close>: the
  cursor \<open>st'\<close> lies ahead of \<open>st\<close> by characters that satisfy \<open>Q\<close> (at least one
  unless \<open>nul\<close>).
\<close>

fun chars_in :: "(char \<Rightarrow> bool) \<Rightarrow> regex \<Rightarrow> bool" where
  "chars_in Q (Chr P) = (\<forall>c. P c \<longrightarrow> Q c)"
| "chars_in Q WordB = True"
| "chars_in Q Eps = True"
| "chars_in Q (Seq a b) = (chars_in Q a \<and> chars_in Q b)"
| "chars_in Q (Alt a b) = (chars_in Q a \<and> chars_in Q b)"
| "chars_in Q (Opt a) = chars_in Q a"
| "chars_in Q (Star a) = chars_in Q a"

fun nullable :: "regex \<Rightarrow> bool" where
  "nullable (Chr P) = False"
| "nullable WordB = True"
| "nullable Eps = True"
| "nullable (Seq a b) = (nullable a \<and> nullable b)"
| "nullable (Alt a b) = (nullable a \<or> nullable b)"
| "nullable (Opt a) = True"
| "nullable (Star a) = True"

definition reaches :: "(char \<Rightarrow> bool) \<Rightarrow> bool \<Rightarrow> cursor \<Rightarrow> cursor \<Rightarrow> bool" where
  "reaches Q nul st st' =
     (\<exists>m. snd st = m @ snd st' \<and> (\<forall>c \<in> set m. Q c) \<and>
          fst st' = (if m = [] then fst st else Some (last m)) \<and> (nul \<or> m \<noteq> []))"

text \<open>
  An engine that returns the same result for every image, and the order the reconstructor
  is to produce: higher origins first, and from left to right at the same height.
\<close>

definition fixed_engine :: "vision \<Rightarrow> string \<Rightarrow> string list \<Rightarrow> vision" where
  "fixed_engine v path langs = v"

definition reading_order :: "observation \<Rightarrow> observation \<Rightarrow> bool" where
  "reading_order a b =
     (origin_y a > origin_y b \<or> (origin_y a = origin_y b \<and> origin_x a \<le> origin_x b))"

text \<open>
  Eligibility in the words of the specification: a regular file whose name does not start
  with the hidden-file marker and ends in a dot and one of the supported extensions, in
  any case.
\<close>

definition spec_supported :: "string set" where
  "spec_supported = {''png'', ''jpg'', ''jpeg'', ''tif'', ''tiff'', ''bmp'', ''gif'', ''heic''}"

definition spec_eligible :: "dir_entry \<Rightarrow> bool" where
  "spec_eligible entry =
     (is_file entry \<and> take 1 (name entry) \<noteq> ''.'' \<and>
      (\<exists>stem ext. name entry = stem @ ''.'' @ ext \<and> CHR ''.'' \<notin> set ext \<and>
                   lower ext \<in> spec_supported))"

text \<open>
  Concrete surroundings for the examples: a file system whose only directory is \<open>in\<close>,
  with the given entries in the given order, and an engine that reads, in every image,
  one line holding the image's file name.
\<close>

definition listing_fs :: "dir_entry list \<Rightarrow> filesystem" where
  "listing_fs entries =
     \<lparr> expanduser = (\<lambda>p. p),
       scandir = (\<lambda>d. if d = ''in'' then Some entries else None) \<rparr>"

definition label_engine :: "string \<Rightarrow> string list \<Rightarrow> vision" where
  "label_engine path langs =
     Results [\<lparr> origin_x = 0, origin_y = 0, topCandidates = [basename path] \<rparr>]"

text \<open>
  The entries of the input directory in the order of enumeration (none when the path is
  not a directory).
\<close>

definition dir_entries :: "filesystem \<Rightarrow> string \<Rightarrow> dir_entry list" where
  "dir_entries fs in_dir =
     (case scandir fs (expanduser fs in_dir) of None \<Rightarrow> [] | Some entries \<Rightarrow> entries)"

text \<open>
  What one pass of the loop of \<open>run\<close> contributes for the image \<open>p\<close>: its base
  name, its effects, its markdown section and its URL occurrences; and the summary printed
  at the end of a run.
\<close>

definition image_base :: "string \<Rightarrow> string" where
  "image_base p = fst (splitext (basename p))"

definition image_effects ::
  "(string \<Rightarrow> string list \<Rightarrow> vision) \<Rightarrow> string list \<Rightarrow> string \<Rightarrow> string \<Rightarrow> effect list" where
  "image_effects engine langs txt_dir p =
     [WriteText (path_join txt_dir (image_base p @ ''.txt'')) (ocr_with_vision engine p langs),
      Print (''OCR: '' @ basename p @ '' -> '' @ path_join txt_dir (image_base p @ ''.txt'') @ '' ('' @
             str_nat (length (ocr_with_vision engine p langs)) @ '' chars, '' @
             str_nat (length (extract_urls (ocr_with_vision engine p langs))) @ '' links)'')]"

definition image_section :: "(string \<Rightarrow> string list \<Rightarrow> vision) \<Rightarrow> string list \<Rightarrow> string \<Rightarrow> string" where
  "image_section engine langs p =
     section_md (image_base p) (ocr_with_vision engine p langs)
       (extract_urls (ocr_with_vision engine p langs))"

definition image_occurrences ::
  "(string \<Rightarrow> string list \<Rightarrow> vision) \<Rightarrow> string list \<Rightarrow> string \<Rightarrow> (string \<times> string) list" where
  "image_occurrences engine langs p =
     map (\<lambda>u. (image_base p, u)) (extract_urls (ocr_with_vision engine p langs))"

definition summary :: "string \<Rightarrow> nat \<Rightarrow> string" where
  "summary out_dir n =
     [NL] @ ''Done.'' @ [NL] @
     ''- Images: '' @ str_nat n @ [NL] @
     ''- Per-image text: '' @ path_join out_dir ''txt'' @ [NL] @
     ''- Combined markdown: '' @ path_join out_dir ''all_text.md'' @ [NL] @
     ''- Combined text: '' @ path_join out_dir ''all_text.txt'' @ [NL] @
     ''- URLs (dedup): '' @ path_join out_dir ''urls.txt'' @ [NL] @
     ''- URL map CSV: '' @ path_join out_dir ''urls.csv''"

text \<open>
  The distinct elements of a list in first-seen order, in the words of the specification:
  an occurrence is kept when the element has not occurred before it.
\<close>

definition first_seen :: "string list \<Rightarrow> string list" where
  "first_seen xs = map (\<lambda>i. xs ! i) (filter (\<lambda>i. xs ! i \<notin> set (take i xs)) [0..<length xs])"



definition plain_line :: "string \<Rightarrow> bool" where
  "plain_line line = (\<forall>c \<in> set line. \<not> is_linebreak c)"

section \<open>Properties of the URL extractor\<close>

lemma rstrip_last: "rstrip s chars \<noteq> [] \<Longrightarrow> last (rstrip s chars) \<notin> set chars"
proof -
  assume ne: "rstrip s chars \<noteq> []"
  let ?d = "dropWhile (\<lambda>c. c \<in> set chars) (rev s)"
  from ne have d: "?d \<noteq> []" by (simp add: rstrip_def)
  then have "hd ?d \<notin> set chars" using hd_dropWhile by metis
  moreover have "last (rstrip s chars) = hd ?d" using d by (simp add: rstrip_def last_rev)
  ultimately show ?thesis by simp
qed

lemma extract_urls_last:
  assumes "u \<in> set (extract_urls t)" "u \<noteq> []"
  shows "last u \<notin> set ''.,;:!)?]''"
proof -
  from assms(1) obtain m where
    u: "u = (let v = rstrip m ''.,;:!)?]'' in if startswith v ''www.'' then ''http://'' @ v else v)"
    by (auto simp: extract_urls_def)
  let ?v = "rstrip m ''.,;:!)?]''"
  show ?thesis
  proof (cases "startswith ?v ''www.''")
    case True
    then have "?v \<noteq> []" by auto
    with True u rstrip_last[of m "''.,;:!)?]''"] show ?thesis by (simp add: Let_def)
  next
    case False
    with u assms(2) rstrip_last[of m "''.,;:!)?]''"] show ?thesis by (simp add: Let_def)
  qed
qed

text \<open>
  C3. The claim: every URL the extractor emits starts with \<open>http://\<close> or \<open>https://\<close>,
  a match beginning with \<open>www.\<close> being prefixed with \<open>http://\<close>. The pattern is
  case-insensitive, the test \<open>startswith("www.")\<close> is not: the text \<open>WWW.EXAMPLE.ORG\<close>
  is matched and emitted as it stands, with no scheme.
\<close>

theorem extract_urls_uppercase_www:
  "extract_urls ''WWW.EXAMPLE.ORG'' = [''WWW.EXAMPLE.ORG''] \<and>
   \<not> startswith ''WWW.EXAMPLE.ORG'' ''http://'' \<and>
   \<not> startswith ''WWW.EXAMPLE.ORG'' ''https://''"
  by code_simp

text \<open>
  The example of the specification, in lower case, is normalised as described. A match
  the strip cuts back to \<open>www\<close> is not prefixed either.
\<close>

lemma extract_urls_www_example: "extract_urls ''www.example.org,'' = [''http://www.example.org'']"
  by code_simp

lemma extract_urls_www_dots: "extract_urls ''see www... now'' = [''www'']"
  by code_simp

text \<open>
  C10. The strip of trailing punctuation removes a closing parenthesis that ends a match:
  \<open>http://example.com/a(b)\<close> is emitted as \<open>http://example.com/a(b\<close>, while the
  parenthesis survives when a character outside the stripped set follows it. No emitted
  URL ends with a closing parenthesis.
\<close>

theorem extract_urls_drops_final_paren:
  "extract_urls ''http://example.com/a(b)'' = [''http://example.com/a(b''] \<and>
   extract_urls ''see http://example.com/a(b)c ok'' = [''http://example.com/a(b)c''] \<and>
   (\<forall>t. \<forall>u \<in> set (extract_urls t). u \<noteq> [] \<longrightarrow> last u \<noteq> CHR '')'')"
proof (intro conjI allI ballI impI)
  show "extract_urls ''http://example.com/a(b)'' = [''http://example.com/a(b'']"
    by code_simp
  show "extract_urls ''see http://example.com/a(b)c ok'' = [''http://example.com/a(b)c'']"
    by code_simp
next
  fix t u assume "u \<in> set (extract_urls t)" "u \<noteq> []"
  from extract_urls_last[OF this] show "last u \<noteq> CHR '')''" by auto
qed

theorem extract_urls_drops_final_paren_witness:
  "''http://example.com/a(b'' \<in> set (extract_urls ''http://example.com/a(b)'') \<and>
   ''http://example.com/a(b'' \<noteq> [] \<and>
   last ''http://example.com/a(b'' \<noteq> CHR '')''"
proof -
  have e: "extract_urls ''http://example.com/a(b)'' = [''http://example.com/a(b'']"
    using extract_urls_drops_final_paren by (rule conjunct1)
  have a: "\<forall>t. \<forall>u \<in> set (extract_urls t). u \<noteq> [] \<longrightarrow> last u \<noteq> CHR '')''"
    using extract_urls_drops_final_paren by blast
  have m: "''http://example.com/a(b'' \<in> set (extract_urls ''http://example.com/a(b)'')"
    by (simp add: e)
  have n: "''http://example.com/a(b'' \<noteq> []" by simp
  from a m n have "last ''http://example.com/a(b'' \<noteq> CHR '')''" by blast
  with m n show ?thesis by blast
qed

lemma reaches_refl: "reaches Q True st st"
  by (simp add: reaches_def)

lemma reaches_trans:
  assumes "reaches Q n1 a b" "reaches Q n2 b c"
  shows "reaches Q (n1 \<and> n2) a c"
proof -
  from assms(1) obtain m1 where 1: "snd a = m1 @ snd b" "\<forall>c \<in> set m1. Q c"
    "fst b = (if m1 = [] then fst a else Some (last m1))" "n1 \<or> m1 \<noteq> []"
    unfolding reaches_def by blast
  from assms(2) obtain m2 where 2: "snd b = m2 @ snd c" "\<forall>c \<in> set m2. Q c"
    "fst c = (if m2 = [] then fst b else Some (last m2))" "n2 \<or> m2 \<noteq> []"
    unfolding reaches_def by blast
  have a: "snd a = (m1 @ m2) @ snd c" using 1(1) 2(1) by simp
  have b: "\<forall>c \<in> set (m1 @ m2). Q c" using 1(2) 2(2) by auto
  have c: "fst c = (if m1 @ m2 = [] then fst a else Some (last (m1 @ m2)))"
    using 1(3) 2(3) by (cases "m2 = []") simp_all
  have d: "(n1 \<and> n2) \<or> m1 @ m2 \<noteq> []" using 1(4) 2(4) by blast
  show ?thesis unfolding reaches_def using a b c d by blast
qed

lemma reaches_weaken: "reaches Q n a b \<Longrightarrow> (n \<longrightarrow> n') \<Longrightarrow> reaches Q n' a b"
  unfolding reaches_def by blast

lemma reaches_step: "Q c \<Longrightarrow> snd st = c # cs \<Longrightarrow> reaches Q False st (Some c, cs)"
  unfolding reaches_def by (rule exI[of _ "[c]"]) simp

lemma rmatch_reaches:
  "chars_in Q r \<Longrightarrow> rmatch r k st = Some x \<Longrightarrow>
   \<exists>st'. reaches Q (nullable r) st st' \<and> k st' = Some x"
proof (induction r k st arbitrary: x rule: rmatch.induct)
  case (1 P k st)
  from 1(2) obtain c cs where s: "snd st = c # cs" and P: "P c" and k: "k (Some c, cs) = Some x"
    by (cases "snd st") (simp_all split: if_splits)
  from 1(1) P have "Q c" by simp
  then have "reaches Q False st (Some c, cs)" using s by (rule reaches_step)
  with k show ?case by (intro exI[of _ "(Some c, cs)"]) simp
next
  case (2 k st)
  then have "k st = Some x" by (simp split: if_splits)
  with reaches_refl show ?case by (intro exI[of _ st]) simp
next
  case (3 k st)
  then have "k st = Some x" by simp
  with reaches_refl show ?case by (intro exI[of _ st]) simp
next
  case (4 a b k st)
  from 4(3) have ca: "chars_in Q a" and cb: "chars_in Q b" by simp_all
  from 4(4) have m: "rmatch a (rmatch b k) st = Some x" by simp
  from 4(2)[OF ca m] obtain st1 where
    1: "reaches Q (nullable a) st st1" "rmatch b k st1 = Some x" by blast
  from 4(1)[OF cb 1(2)] obtain st2 where
    2: "reaches Q (nullable b) st1 st2" "k st2 = Some x" by blast
  from reaches_trans[OF 1(1) 2(1)] 2(2) show ?case by (intro exI[of _ st2]) simp
next
  case (5 a b k st)
  from 5(3) have ca: "chars_in Q a" and cb: "chars_in Q b" by simp_all
  show ?case
  proof (cases "rmatch a k st")
    case None
    with 5(4) have "rmatch b k st = Some x" by simp
    from 5(2)[OF None cb this] obtain st' where
      r: "reaches Q (nullable b) st st'" and k: "k st' = Some x" by blast
    from r have "reaches Q (nullable (Alt a b)) st st'" by (rule reaches_weaken) simp
    with k show ?thesis by (intro exI[of _ st']) simp
  next
    case (Some y)
    with 5(4) have "rmatch a k st = Some x" by simp
    from 5(1)[OF ca this] obtain st' where
      r: "reaches Q (nullable a) st st'" and k: "k st' = Some x" by blast
    from r have "reaches Q (nullable (Alt a b)) st st'" by (rule reaches_weaken) simp
    with k show ?thesis by (intro exI[of _ st']) simp
  qed
next
  case (6 a k st)
  from 6(2) have ca: "chars_in Q a" by simp
  show ?case
  proof (cases "rmatch a k st")
    case None
    with 6(3) have "k st = Some x" by simp
    with reaches_refl show ?thesis by (intro exI[of _ st]) simp
  next
    case (Some y)
    with 6(3) have "rmatch a k st = Some x" by simp
    from 6(1)[OF ca this] obtain st' where
      r: "reaches Q (nullable a) st st'" and k: "k st' = Some x" by blast
    from r have "reaches Q (nullable (Opt a)) st st'" by (rule reaches_weaken) simp
    with k show ?thesis by (intro exI[of _ st']) simp
  qed
next
  case (7 a k st)
  let ?k = "\<lambda>st'. if length (snd st') < length (snd st) then rmatch (Star a) k st' else None"
  from 7(3) have ca: "chars_in Q a" by simp
  show ?case
  proof (cases "rmatch a ?k st")
    case None
    with 7(4) have "k st = Some x" by (simp add: rmatch.simps(7)[of a k st])
    with reaches_refl show ?thesis by (intro exI[of _ st]) simp
  next
    case (Some y)
    with 7(4) have m: "rmatch a ?k st = Some x" by (simp add: rmatch.simps(7)[of a k st])
    from 7(2)[OF ca m] obtain st1 where
      1: "reaches Q (nullable a) st st1" "?k st1 = Some x" by blast
    from 1(2) have lt: "length (snd st1) < length (snd st)"
      and s: "rmatch (Star a) k st1 = Some x"
      by (simp_all split: if_splits)
    from 7(1)[OF lt 7(3) s] obtain st2 where
      2: "reaches Q (nullable (Star a)) st1 st2" "k st2 = Some x" by blast
    from reaches_trans[OF 1(1) 2(1)]
    have "reaches Q (nullable (Star a)) st st2" by (rule reaches_weaken) simp
    with 2(2) show ?thesis by (intro exI[of _ st2]) simp
  qed
qed

lemma is_space_lower_char: "is_space d \<Longrightarrow> lower_char d = d"
  by (auto simp: is_space_def lower_char_def Let_def)

lemma lit_not_space:
  assumes "\<not> is_space c" "lower_char c = c"
  shows "chars_in (\<lambda>c. \<not> is_space c) (lit c)"
proof -
  have "\<not> is_space d" if "lower_char d = lower_char c" for d
  proof
    assume "is_space d"
    with that assms(2) have "d = c" by (simp add: is_space_lower_char)
    with \<open>is_space d\<close> assms(1) show False by simp
  qed
  then show ?thesis by (simp add: lit_def)
qed

lemma url_literals:
  "\<forall>c \<in> set ''htps:/w.()''. \<not> is_space c \<and> lower_char c = c"
  by (simp add: is_space_def lower_char_def code_def)

lemma url_regex_chars: "chars_in (\<lambda>c. \<not> is_space c) URL_REGEX"
  using url_literals
  by (simp add: URL_REGEX_def lits_def Plus_def lit_not_space no_paren_class_def paren_class_def)

lemma url_regex_not_nullable: "\<not> nullable URL_REGEX"
  by (simp add: URL_REGEX_def lits_def Plus_def lit_def)

lemma url_match_consumes:
  assumes "rmatch URL_REGEX Some (p, s) = Some (p', s')"
  shows "\<exists>m. s = m @ s' \<and> m \<noteq> [] \<and> (\<forall>c \<in> set m. \<not> is_space c) \<and> p' = Some (last m)"
proof -
  from rmatch_reaches[OF url_regex_chars assms] obtain st' where
    r: "reaches (\<lambda>c. \<not> is_space c) (nullable URL_REGEX) (p, s) st'" and k: "Some st' = Some (p', s')"
    by blast
  from k have st': "st' = (p', s')" by simp
  from r url_regex_not_nullable show ?thesis
    unfolding reaches_def st' by auto
qed

lemma url_no_match_at_space:
  assumes "is_space c"
  shows "rmatch URL_REGEX Some (p, c # s) = None"
proof (cases "rmatch URL_REGEX Some (p, c # s)")
  case None then show ?thesis .
next
  case (Some x)
  obtain p' s' where x: "x = (p', s')" by (cases x)
  from url_match_consumes[OF Some[unfolded x]] obtain m where
    m: "c # s = m @ s'" "m \<noteq> []" "\<forall>c \<in> set m. \<not> is_space c" by blast
  from m(1,2) have "c \<in> set m" by (cases m) auto
  with m(3) assms show ?thesis by blast
qed

lemma is_space_not_word: "is_space c \<Longrightarrow> \<not> is_word c"
  by (auto simp: is_space_def is_word_def is_alnum_def Let_def code_def)

lemma space_classes:
  assumes "is_space w"
  shows "\<not> no_paren_class w" "\<not> paren_class w" "lower_char w = w" "w \<noteq> CHR ''(''" "w \<noteq> CHR '')''"
  using assms by (auto simp: no_paren_class_def paren_class_def is_space_lower_char is_space_def code_def)

lemma token_match_end:
  assumes "case p of None \<Rightarrow> True | Some c \<Rightarrow> \<not> is_word c"
  shows "rmatch URL_REGEX Some (p, ''http://example.com/path(seg1)(seg2)more.'') = Some (Some CHR ''.'', [])"
proof -
  have b: "(case p of None \<Rightarrow> False | Some c \<Rightarrow> is_word c) = False"
    using assms by (simp split: option.splits)
  have h: "is_word CHR ''h''" by (simp add: is_word_def is_alnum_def code_def)
  show ?thesis
    by (simp add: b h at_boundary_def URL_REGEX_def lits_def Plus_def lit_def rmatch.simps(7)
        no_paren_class_def paren_class_def is_space_def lower_char_def code_def)
qed

lemma token_match_space:
  assumes "case p of None \<Rightarrow> True | Some c \<Rightarrow> \<not> is_word c" "is_space w"
  shows "rmatch URL_REGEX Some (p, ''http://example.com/path(seg1)(seg2)more.'' @ w # post) = Some (Some CHR ''.'', w # post)"
proof -
  have b: "(case p of None \<Rightarrow> False | Some c \<Rightarrow> is_word c) = False"
    using assms by (simp split: option.splits)
  have h: "is_word CHR ''h''" by (simp add: is_word_def is_alnum_def code_def)
  note sp = space_classes[OF assms(2)]
  have cl: "\<forall>c \<in> set ''http://example.com/pathseg1seg2more.''. no_paren_class c \<and> paren_class c"
    by (simp add: no_paren_class_def paren_class_def is_space_def code_def)
  have cl2: "\<forall>c \<in> set ''()''. \<not> no_paren_class c \<and> paren_class c"
    by (simp add: no_paren_class_def paren_class_def is_space_def code_def)
  have lo: "\<forall>c \<in> set ''http://example.com/path(seg1)(seg2)more.''. lower_char c = c"
    by (simp add: lower_char_def code_def)
  show ?thesis
    using cl cl2 lo
    by (simp add: b h at_boundary_def URL_REGEX_def lits_def Plus_def lit_def rmatch.simps(7) sp)
qed

lemma finditer_no_match:
  "rmatch r Some (p, c # cs) = None \<Longrightarrow> finditer r p (c # cs) = finditer r (Some c) cs"
  by (simp add: finditer.simps[of r p "c # cs"])

lemma finditer_match:
  assumes "rmatch r Some (p, m @ s') = Some (p', s')" "m \<noteq> []"
  shows "finditer r p (m @ s') = m # finditer r p' s'"
  using assms by (simp add: finditer.simps[of r p "m @ s'"])

lemma url_no_match_empty: "rmatch URL_REGEX Some (p, []) = None"
proof (cases "rmatch URL_REGEX Some (p, [])")
  case None then show ?thesis .
next
  case (Some x)
  obtain p' s' where x: "x = (p', s')" by (cases x)
  from url_match_consumes[OF Some[unfolded x]] show ?thesis by simp
qed

lemma finditer_url_prev:
  assumes "s = [] \<or> is_space (hd s)"
  shows "finditer URL_REGEX p s = finditer URL_REGEX None s"
proof (cases s)
  case Nil
  then show ?thesis by (simp add: finditer.simps[of URL_REGEX _ "[]"] url_no_match_empty)
next
  case (Cons w s')
  with assms have "is_space w" by simp
  then show ?thesis unfolding Cons
    by (simp add: finditer_no_match url_no_match_at_space)
qed

lemma finditer_url_skip:
  assumes "pre \<noteq> []" "is_space (last pre)"
  shows "\<exists>X. finditer URL_REGEX p (pre @ s) = X @ finditer URL_REGEX (Some (last pre)) s"
  using assms
proof (induction "length pre" arbitrary: pre p rule: less_induct)
  case less
  from less(2) obtain c pre' where pre: "pre = c # pre'" by (cases pre) auto
  show ?case
  proof (cases "rmatch URL_REGEX Some (p, pre @ s)")
    case None
    then have f: "finditer URL_REGEX p (pre @ s) = finditer URL_REGEX (Some c) (pre' @ s)"
      unfolding pre by (simp add: finditer_no_match)
    show ?thesis
    proof (cases "pre' = []")
      case True
      with f pre show ?thesis by simp
    next
      case False
      with less(3) pre have "is_space (last pre')" by simp
      from less(1)[OF _ False this, of "Some c"] pre obtain X where
        "finditer URL_REGEX (Some c) (pre' @ s) = X @ finditer URL_REGEX (Some (last pre')) s"
        by auto
      with f pre False show ?thesis by simp
    qed
  next
    case (Some x)
    obtain p' s' where x: "x = (p', s')" by (cases x)
    from url_match_consumes[OF Some[unfolded x]] obtain m where
      m: "pre @ s = m @ s'" "m \<noteq> []" "\<forall>c \<in> set m. \<not> is_space c" by blast
    from less(2) have lp: "last pre \<in> set pre" by simp
    from m(1) obtain us where
      us: "(pre = m @ us \<and> us @ s = s') \<or> (pre @ us = m \<and> s = us @ s')"
      by (auto simp: append_eq_append_conv2)
    have nm: "last pre \<notin> set m" using m(3) less(3) by blast
    from us nm lp have 1: "pre = m @ us" "s' = us @ s" by auto
    from 1(1) nm lp have ne: "us \<noteq> []" by auto
    from 1(1) ne have la: "last us = last pre" by simp
    from 1(1) m(2) have le: "length us < length pre" by simp
    from Some x 1 have "rmatch URL_REGEX Some (p, m @ us @ s) = Some (p', us @ s)" by simp
    from finditer_match[OF this m(2)]
    have f: "finditer URL_REGEX p (pre @ s) = m # finditer URL_REGEX p' (us @ s)"
      using 1 by simp
    from less(1)[OF le ne, of p'] la less(3) obtain X where
      "finditer URL_REGEX p' (us @ s) = X @ finditer URL_REGEX (Some (last pre)) s"
      by auto
    with f have "finditer URL_REGEX p (pre @ s) = (m # X) @ finditer URL_REGEX (Some (last pre)) s"
      by simp
    then show ?thesis by blast
  qed
qed

text \<open>
  C2. Wherever the token \<open>http://example.com/path(seg1)(seg2)more.\<close> stands in a text
  between white space (or the ends of the text), the extractor emits
  \<open>http://example.com/path(seg1)(seg2)more\<close> for it: the final full stop is stripped,
  the parenthesised segments are kept. The URLs after it are those of the rest of the
  text.
\<close>

theorem extract_urls_token:
  assumes "pre = [] \<or> is_space (last pre)" "post = [] \<or> is_space (hd post)"
  shows "\<exists>X. extract_urls (pre @ ''http://example.com/path(seg1)(seg2)more.'' @ post) =
           X @ ''http://example.com/path(seg1)(seg2)more'' # extract_urls post"
proof -
  let ?T = "''http://example.com/path(seg1)(seg2)more.''"
  define p0 where "p0 = (if pre = [] then None else Some (last pre))"
  have p0: "case p0 of None \<Rightarrow> True | Some c \<Rightarrow> \<not> is_word c"
    using assms(1) by (auto simp: p0_def is_space_not_word)
  have "\<exists>X. finditer URL_REGEX None (pre @ ?T @ post) = X @ finditer URL_REGEX p0 (?T @ post)"
  proof (cases "pre = []")
    case True
    then show ?thesis by (simp add: p0_def)
  next
    case False
    with assms(1) have "is_space (last pre)" by simp
    from finditer_url_skip[OF False this, of None "?T @ post"] False show ?thesis
      by (simp add: p0_def)
  qed
  then obtain X where X: "finditer URL_REGEX None (pre @ ?T @ post) = X @ finditer URL_REGEX p0 (?T @ post)"
    by blast
  have m: "rmatch URL_REGEX Some (p0, ?T @ post) = Some (Some CHR ''.'', post)"
  proof (cases post)
    case Nil
    with token_match_end[OF p0] show ?thesis by simp
  next
    case (Cons w post')
    with assms(2) have "is_space w" by simp
    from token_match_space[OF p0 this, of post'] Cons show ?thesis by simp
  qed
  have "finditer URL_REGEX p0 (?T @ post) = ?T # finditer URL_REGEX (Some CHR ''.'') post"
    by (rule finditer_match[OF m]) simp
  also have "finditer URL_REGEX (Some CHR ''.'') post = finditer URL_REGEX None post"
    using assms(2) by (rule finditer_url_prev)
  finally have "finditer URL_REGEX None (pre @ ?T @ post) = X @ ?T # finditer URL_REGEX None post"
    using X by simp
  then have "extract_urls (pre @ ?T @ post) =
      map (\<lambda>m. let u = rstrip m ''.,;:!)?]'' in if startswith u ''www.'' then ''http://'' @ u else u) X @
      ''http://example.com/path(seg1)(seg2)more'' # extract_urls post"
    by (simp add: extract_urls_def rstrip_def)
  then show ?thesis by blast
qed

theorem extract_urls_token_witness:
  "is_space (last ''Check '') \<and>
   (\<exists>X. extract_urls (''Check '' @ ''http://example.com/path(seg1)(seg2)more.'' @ []) =
      X @ ''http://example.com/path(seg1)(seg2)more'' # extract_urls []) \<and>
   extract_urls ''Check http://example.com/path(seg1)(seg2)more.'' =
     [''http://example.com/path(seg1)(seg2)more'']"
proof -
  have a: "is_space (last ''Check '')" by (simp add: is_space_def code_def)
  have b: "([]::string) = [] \<or> is_space (hd [])" by simp
  from a have a': "''Check '' = [] \<or> is_space (last ''Check '')" by simp
  have c: "\<exists>X. extract_urls (''Check '' @ ''http://example.com/path(seg1)(seg2)more.'' @ []) =
      X @ ''http://example.com/path(seg1)(seg2)more'' # extract_urls []"
    using a' b by (rule extract_urls_token)
  have d: "extract_urls ''Check http://example.com/path(seg1)(seg2)more.'' =
     [''http://example.com/path(seg1)(seg2)more'']"
    by code_simp
  from a c d show ?thesis by blast
qed

section \<open>Properties of the reading-order reconstruction\<close>

lemma insort_key_map:
  "insort_key f (h x) (map h ys) = map h (insort_key (\<lambda>a. f (h a)) x ys)"
  by (induction ys) simp_all

lemma sort_key_map:
  "sort_key f (map h xs) = map h (sort_key (\<lambda>a. f (h a)) xs)"
  by (induction xs) (simp_all add: insort_key_map)

lemma sort_key_perm_map:
  assumes "mset xs = mset ys"
    and "\<forall>a \<in> set xs. \<forall>b \<in> set xs. f a = f b \<longrightarrow> g a = g b"
  shows "map g (sort_key f xs) = map g (sort_key f ys)"
proof -
  let ?h = "\<lambda>a. (f a, g a)"
  have m: "mset (map ?h xs) = mset (map ?h ys)" using assms(1) by simp
  have i: "inj_on fst (set (map ?h xs))"
  proof (rule inj_onI)
    fix p q assume p: "p \<in> set (map ?h xs)" and q: "q \<in> set (map ?h xs)" and e: "fst p = fst q"
    from p obtain a where a: "a \<in> set xs" "p = (f a, g a)" by auto
    from q obtain b where b: "b \<in> set xs" "q = (f b, g b)" by auto
    from e a(2) b(2) have "f a = f b" by simp
    with assms(2) a(1) b(1) have "g a = g b" by blast
    with \<open>f a = f b\<close> a(2) b(2) show "p = q" by simp
  qed
  have "sort_key fst (map ?h xs) = sort_key fst (map ?h ys)"
    using m i by (rule sort_key_eq_sort_key)
  then have "map ?h (sort_key f xs) = map ?h (sort_key f ys)"
    by (simp add: sort_key_map)
  then have "map snd (map ?h (sort_key f xs)) = map snd (map ?h (sort_key f ys))"
    by simp
  then show ?thesis by (simp add: comp_def)
qed

lemma text_lines_cong:
  "map topCandidates xs = map topCandidates ys \<Longrightarrow> text_lines xs = text_lines ys"
proof (induction xs arbitrary: ys)
  case Nil
  then show ?case by simp
next
  case (Cons x xs)
  then obtain y ys' where ys: "ys = y # ys'" by (cases ys) auto
  with Cons.prems have "topCandidates x = topCandidates y" "map topCandidates xs = map topCandidates ys'"
    by simp_all
  with Cons.IH[of ys'] ys show ?case by (simp split: list.splits)
qed

lemma sorted_key_reading_order:
  "sorted (map key zs) = sorted_wrt reading_order zs"
proof -
  have "key a \<le> key b \<longleftrightarrow> reading_order a b" for a b
    unfolding key_def reading_order_def less_eq_prod_def by simp linarith
  then show ?thesis by (simp add: sorted_map)
qed

text \<open>
  C1. The claim: the text block is the same for every permutation of the regions. The
  sort is stable and its key is the origin alone, so two regions with the same origin and
  different texts come out in the order they were supplied.
\<close>

theorem same_origin_counterexample:
  "mset [\<lparr>origin_x = 0, origin_y = 0, topCandidates = [''B'']\<rparr>,
         \<lparr>origin_x = 0, origin_y = 0, topCandidates = [''A'']\<rparr>] =
   mset [\<lparr>origin_x = 0, origin_y = 0, topCandidates = [''A'']\<rparr>,
         \<lparr>origin_x = 0, origin_y = 0, topCandidates = [''B'']\<rparr>] \<and>
   ocr_with_vision
     (fixed_engine (Results [\<lparr>origin_x = 0, origin_y = 0, topCandidates = [''B'']\<rparr>,
                             \<lparr>origin_x = 0, origin_y = 0, topCandidates = [''A'']\<rparr>]))
     ''a.png'' [] \<noteq>
   ocr_with_vision
     (fixed_engine (Results [\<lparr>origin_x = 0, origin_y = 0, topCandidates = [''A'']\<rparr>,
                             \<lparr>origin_x = 0, origin_y = 0, topCandidates = [''B'']\<rparr>]))
     ''a.png'' []"
  by (simp add: ocr_with_vision_def fixed_engine_def key_def)

text \<open>
  C1, amended. When any two regions with the same origin carry the same candidate strings,
  every permutation of the regions gives the same text block. The block is the
  newline-joined best candidates (regions with no candidate or an empty one give no
  line) of the regions in reading order.
\<close>

theorem reading_order_permutation:
  assumes "mset ys = mset xs"
    and "\<forall>a \<in> set xs. \<forall>b \<in> set xs.
           origin_x a = origin_x b \<and> origin_y a = origin_y b \<longrightarrow> topCandidates a = topCandidates b"
    and "engine1 path langs = Results xs" and "engine2 path langs = Results ys"
  shows "ocr_with_vision engine2 path langs = ocr_with_vision engine1 path langs \<and>
         (\<exists>zs. mset zs = mset xs \<and> sorted_wrt reading_order zs \<and>
               ocr_with_vision engine1 path langs = join [NL] (text_lines zs))"
proof -
  have "topCandidates a = topCandidates b" if "a \<in> set xs" "b \<in> set xs" "key a = key b" for a b
  proof -
    from that(3) have "origin_x a = origin_x b \<and> origin_y a = origin_y b"
      by (simp add: key_def)
    with assms(2) that(1,2) show ?thesis by blast
  qed
  then have k: "\<forall>a \<in> set xs. \<forall>b \<in> set xs. key a = key b \<longrightarrow> topCandidates a = topCandidates b"
    by blast
  have "map topCandidates (sort_key key xs) = map topCandidates (sort_key key ys)"
    using assms(1)[symmetric] k by (rule sort_key_perm_map)
  then have "text_lines (sort_key key xs) = text_lines (sort_key key ys)"
    by (rule text_lines_cong)
  then have 1: "ocr_with_vision engine2 path langs = ocr_with_vision engine1 path langs"
    using assms(3,4) by (simp add: ocr_with_vision_def)
  have 2: "mset (sort_key key xs) = mset xs" by simp
  have 3: "sorted_wrt reading_order (sort_key key xs)"
    by (simp add: sorted_key_reading_order[symmetric])
  have 4: "ocr_with_vision engine1 path langs = join [NL] (text_lines (sort_key key xs))"
    using assms(3) by (simp add: ocr_with_vision_def)
  from 2 3 4 have "\<exists>zs. mset zs = mset xs \<and> sorted_wrt reading_order zs \<and>
               ocr_with_vision engine1 path langs = join [NL] (text_lines zs)"
    by (intro exI[of _ "sort_key key xs"]) simp
  with 1 show ?thesis by (rule conjI)
qed



theorem reading_order_permutation_witness:
  "ocr_with_vision
     (fixed_engine (Results [\<lparr>origin_x = 1/2, origin_y = 1/4, topCandidates = [''world'']\<rparr>,
                             \<lparr>origin_x = 1/10, origin_y = 1/4, topCandidates = [''hello'']\<rparr>,
                             \<lparr>origin_x = 1/10, origin_y = 3/4, topCandidates = [''Title'']\<rparr>])) ''a.png'' [] =
   ocr_with_vision
     (fixed_engine (Results [\<lparr>origin_x = 1/10, origin_y = 3/4, topCandidates = [''Title'']\<rparr>,
                             \<lparr>origin_x = 1/10, origin_y = 1/4, topCandidates = [''hello'']\<rparr>,
                             \<lparr>origin_x = 1/2, origin_y = 1/4, topCandidates = [''world'']\<rparr>])) ''a.png'' [] \<and>
   ocr_with_vision
     (fixed_engine (Results [\<lparr>origin_x = 1/10, origin_y = 3/4, topCandidates = [''Title'']\<rparr>,
                             \<lparr>origin_x = 1/10, origin_y = 1/4, topCandidates = [''hello'']\<rparr>,
                             \<lparr>origin_x = 1/2, origin_y = 1/4, topCandidates = [''world'']\<rparr>])) ''a.png'' [] =
     ''Title'' @ [NL] @ ''hello'' @ [NL] @ ''world''"
proof -
  let ?t = "\<lparr>origin_x = 1/10, origin_y = 3/4, topCandidates = [''Title'']\<rparr>"
  let ?h = "\<lparr>origin_x = 1/10, origin_y = 1/4, topCandidates = [''hello'']\<rparr>"
  let ?w = "\<lparr>origin_x = 1/2, origin_y = 1/4, topCandidates = [''world'']\<rparr>"
  have a: "mset [?w, ?h, ?t] = mset [?t, ?h, ?w]" by simp
  have b: "\<forall>a \<in> set [?t, ?h, ?w]. \<forall>b \<in> set [?t, ?h, ?w].
           origin_x a = origin_x b \<and> origin_y a = origin_y b \<longrightarrow> topCandidates a = topCandidates b"
    by simp
  have c: "fixed_engine (Results [?t, ?h, ?w]) ''a.png'' [] = Results [?t, ?h, ?w]"
    and d: "fixed_engine (Results [?w, ?h, ?t]) ''a.png'' [] = Results [?w, ?h, ?t]"
    by (simp_all add: fixed_engine_def)
  from reading_order_permutation[of "[?w, ?h, ?t]" "[?t, ?h, ?w]"
      "fixed_engine (Results [?t, ?h, ?w])" "''a.png''" "[]"
      "fixed_engine (Results [?w, ?h, ?t])", OF a b c d]
  have 1: "ocr_with_vision (fixed_engine (Results [?w, ?h, ?t])) ''a.png'' [] =
           ocr_with_vision (fixed_engine (Results [?t, ?h, ?w])) ''a.png'' []"
    by (rule conjunct1)
  have 2: "ocr_with_vision (fixed_engine (Results [?t, ?h, ?w])) ''a.png'' [] =
     ''Title'' @ [NL] @ ''hello'' @ [NL] @ ''world''"
    by (simp add: ocr_with_vision_def fixed_engine_def key_def)
  from 1 2 show ?thesis by (rule conjI)
qed

section \<open>Properties of image discovery\<close>

lemma rfind_None: "rfind c s = None \<longleftrightarrow> c \<notin> set s"
  by (induction s) (auto split: option.splits)

lemma rfind_last: "c \<notin> set b \<Longrightarrow> rfind c (a @ c # b) = Some (length a)"
  by (induction a) (simp_all add: rfind_None[THEN iffD2])

lemma rfind_Some:
  "rfind c s = Some i \<Longrightarrow> i < length s \<and> s ! i = c \<and> c \<notin> set (drop (Suc i) s)"
proof (induction s arbitrary: i)
  case Nil
  then show ?case by simp
next
  case (Cons x xs)
  show ?case
  proof (cases "rfind c xs")
    case None
    with Cons.prems have "x = c" "i = 0" by (simp_all split: if_splits)
    with None show ?thesis by (simp add: rfind_None)
  next
    case (Some j)
    with Cons.prems have i: "i = Suc j" by simp
    from Cons.IH[OF Some] i show ?thesis by simp
  qed
qed

lemma basename_path_join:
  assumes "CHR ''/'' \<notin> set n"
  shows "basename (path_join d n) = n"
proof -
  from assms have ns: "\<not> startswith n ''/''" by (cases n) auto
  from assms have none: "basename n = n" by (simp add: basename_def rfind_None[THEN iffD2])
  have slash: "basename (x @ CHR ''/'' # n) = n" for x
    using assms by (simp add: basename_def rfind_last)
  show ?thesis
  proof (cases "d = []")
    case True
    with ns none show ?thesis by (simp add: path_join_def)
  next
    case False
    show ?thesis
    proof (cases "last d = CHR ''/''")
      case True
      with False obtain x where x: "d = x @ [CHR ''/'']" by (metis append_butlast_last_id)
      have "basename (path_join d n) = basename (x @ CHR ''/'' # n)"
        using ns by (simp add: path_join_def x)
      with slash[of x] show ?thesis by simp
    next
      case F: False
      with False ns slash[of d] show ?thesis by (simp add: path_join_def)
    qed
  qed
qed


lemma lower_dot: "lower (CHR ''.'' # ext) = CHR ''.'' # lower ext"
  by (simp add: lower_def lower_char_def code_def)

lemma supported_dot: "(CHR ''.'' # e) \<in> SUPPORTED_EXTS \<longleftrightarrow> e \<in> spec_supported"
  by (auto simp: SUPPORTED_EXTS_def spec_supported_def)

lemma splitext_visible:
  assumes "take 1 n \<noteq> ''.''" "CHR ''/'' \<notin> set n" "n = stem @ ''.'' @ ext" "CHR ''.'' \<notin> set ext"
  shows "splitext n = (stem, CHR ''.'' # ext)"
proof -
  from assms(3,4) have r: "rfind CHR ''.'' n = Some (length stem)" by (simp add: rfind_last)
  from assms(2) have s: "rfind CHR ''/'' n = None" by (simp add: rfind_None)
  from assms(1,3) obtain c cs where st: "stem = c # cs" "c \<noteq> CHR ''.''"
    by (cases stem) auto
  then have "list_ex (\<lambda>c. c \<noteq> CHR ''.'') stem" by simp
  with r s assms(3) show ?thesis by (simp add: splitext_def)
qed

lemma splitext_snd_cases:
  "snd (splitext n) = [] \<or> (\<exists>i. rfind CHR ''.'' n = Some i \<and> snd (splitext n) = drop i n)"
  by (auto simp: splitext_def Let_def split: option.splits)

lemma eligible_spec:
  assumes "CHR ''/'' \<notin> set (name e)"
  shows "eligible e = spec_eligible e"
proof -
  let ?n = "name e"
  have hid: "startswith ?n ''.'' \<longleftrightarrow> take 1 ?n = ''.''"
    by (cases ?n) auto
  have "lower (snd (splitext ?n)) \<in> SUPPORTED_EXTS \<longleftrightarrow>
        (\<exists>stem ext. ?n = stem @ ''.'' @ ext \<and> CHR ''.'' \<notin> set ext \<and> lower ext \<in> spec_supported)"
    if vis: "take 1 ?n \<noteq> ''.''"
  proof
    assume l: "lower (snd (splitext ?n)) \<in> SUPPORTED_EXTS"
    then have "snd (splitext ?n) \<noteq> []" by (auto simp: SUPPORTED_EXTS_def lower_def)
    with splitext_snd_cases[of ?n] obtain i where
      i: "rfind CHR ''.'' ?n = Some i" "snd (splitext ?n) = drop i ?n" by auto
    from rfind_Some[OF i(1)] have
      p: "i < length ?n" "?n ! i = CHR ''.''" "CHR ''.'' \<notin> set (drop (Suc i) ?n)" by simp_all
    from p(1,2) have d: "drop i ?n = CHR ''.'' # drop (Suc i) ?n"
      by (metis Cons_nth_drop_Suc)
    then have n: "?n = take i ?n @ ''.'' @ drop (Suc i) ?n"
      by (metis append_Cons append_Nil append_take_drop_id)
    from l i(2) d have "lower (drop (Suc i) ?n) \<in> spec_supported"
      by (simp add: lower_dot supported_dot)
    with n p(3) show "\<exists>stem ext. ?n = stem @ ''.'' @ ext \<and> CHR ''.'' \<notin> set ext \<and> lower ext \<in> spec_supported"
      by blast
  next
    assume "\<exists>stem ext. ?n = stem @ ''.'' @ ext \<and> CHR ''.'' \<notin> set ext \<and> lower ext \<in> spec_supported"
    then obtain stem ext where
      x: "?n = stem @ ''.'' @ ext" "CHR ''.'' \<notin> set ext" "lower ext \<in> spec_supported" by blast
    from splitext_visible[OF vis assms x(1,2)] x(3)
    show "lower (snd (splitext ?n)) \<in> SUPPORTED_EXTS"
      by (simp add: lower_dot supported_dot)
  qed
  with hid show ?thesis unfolding eligible_def spec_eligible_def by blast
qed

lemma list_images_sorted_entries:
  assumes "scandir fs (expanduser fs in_dir) = Some entries"
    and "\<forall>e \<in> set entries. CHR ''/'' \<notin> set (name e)"
  shows "\<exists>zs. mset zs = mset (filter spec_eligible entries) \<and>
              sorted (map (\<lambda>e. lower (name e)) zs) \<and>
              list_images fs in_dir = map (\<lambda>e. path_join (expanduser fs in_dir) (name e)) zs"
proof -
  let ?d = "expanduser fs in_dir"
  let ?pj = "\<lambda>e. path_join ?d (name e)"
  let ?k = "\<lambda>e. lower (basename (?pj e))"
  let ?zs = "sort_key ?k (filter eligible entries)"
  have f: "filter eligible entries = filter spec_eligible entries"
    using assms(2) by (intro filter_cong refl) (simp add: eligible_spec)
  have 1: "mset ?zs = mset (filter spec_eligible entries)" by (simp add: f)
  have eq: "?k e = lower (name e)" if "e \<in> set ?zs" for e
  proof -
    from that have "e \<in> set entries" by simp
    with assms(2) show ?thesis by (simp add: basename_path_join)
  qed
  have m: "map (\<lambda>e. lower (name e)) ?zs = map ?k ?zs"
    by (rule map_cong[OF refl]) (simp only: eq)
  have "sorted (map ?k ?zs)" by (rule sorted_sort_key)
  then have 2: "sorted (map (\<lambda>e. lower (name e)) ?zs)" by (simp only: m)
  have 3: "list_images fs in_dir = map ?pj ?zs"
    using assms(1) by (simp add: list_images_def sort_key_map Let_def)
  from 1 2 3 show ?thesis by (intro exI[of _ ?zs] conjI)
qed

text \<open>
  C6. Image discovery returns nothing for a path that is not a directory. For a directory
  it returns the paths of exactly the entries that are eligible in the words of the
  specification, each once, sorted by lower-cased file name. (Entry names, as the
  operating system yields them, hold no path separator.)
\<close>

theorem list_images_contract:
  "(scandir fs (expanduser fs in_dir) = None \<longrightarrow> list_images fs in_dir = []) \<and>
   (\<forall>entries. scandir fs (expanduser fs in_dir) = Some entries \<and>
       (\<forall>e \<in> set entries. CHR ''/'' \<notin> set (name e)) \<longrightarrow>
       (\<exists>zs. mset zs = mset (filter spec_eligible entries) \<and>
             sorted (map (\<lambda>e. lower (name e)) zs) \<and>
             list_images fs in_dir = map (\<lambda>e. path_join (expanduser fs in_dir) (name e)) zs))"
proof (intro conjI impI allI)
  assume "scandir fs (expanduser fs in_dir) = None"
  then show "list_images fs in_dir = []" by (simp add: list_images_def)
next
  fix entries
  assume "scandir fs (expanduser fs in_dir) = Some entries \<and>
       (\<forall>e \<in> set entries. CHR ''/'' \<notin> set (name e))"
  then show "\<exists>zs. mset zs = mset (filter spec_eligible entries) \<and>
             sorted (map (\<lambda>e. lower (name e)) zs) \<and>
             list_images fs in_dir = map (\<lambda>e. path_join (expanduser fs in_dir) (name e)) zs"
    using list_images_sorted_entries by blast
qed

theorem list_images_contract_witness:
  "scandir (listing_fs [\<lparr>name = ''b.PNG'', is_file = True\<rparr>, \<lparr>name = ''A.jpg'', is_file = True\<rparr>,
                        \<lparr>name = ''.c.jpg'', is_file = True\<rparr>, \<lparr>name = ''d.txt'', is_file = True\<rparr>,
                        \<lparr>name = ''e.gif'', is_file = False\<rparr>])
     (expanduser (listing_fs []) ''in'') =
     Some [\<lparr>name = ''b.PNG'', is_file = True\<rparr>, \<lparr>name = ''A.jpg'', is_file = True\<rparr>,
           \<lparr>name = ''.c.jpg'', is_file = True\<rparr>, \<lparr>name = ''d.txt'', is_file = True\<rparr>,
           \<lparr>name = ''e.gif'', is_file = False\<rparr>] \<and>
   list_images (listing_fs [\<lparr>name = ''b.PNG'', is_file = True\<rparr>, \<lparr>name = ''A.jpg'', is_file = True\<rparr>,
                        \<lparr>name = ''.c.jpg'', is_file = True\<rparr>, \<lparr>name = ''d.txt'', is_file = True\<rparr>,
                        \<lparr>name = ''e.gif'', is_file = False\<rparr>]) ''in'' = [''in/A.jpg'', ''in/b.PNG''] \<and>
   list_images (listing_fs [\<lparr>name = ''b.PNG'', is_file = True\<rparr>]) ''missing'' = []"
proof -
  let ?E = "[\<lparr>name = ''b.PNG'', is_file = True\<rparr>, \<lparr>name = ''A.jpg'', is_file = True\<rparr>,
             \<lparr>name = ''.c.jpg'', is_file = True\<rparr>, \<lparr>name = ''d.txt'', is_file = True\<rparr>,
             \<lparr>name = ''e.gif'', is_file = False\<rparr>]"
  have s: "scandir (listing_fs ?E) (expanduser (listing_fs []) ''in'') = Some ?E"
    by (simp add: listing_fs_def)
  have s': "scandir (listing_fs ?E) (expanduser (listing_fs ?E) ''in'') = Some ?E"
    by (simp add: listing_fs_def)
  have w: "\<forall>e \<in> set ?E. CHR ''/'' \<notin> set (name e)" by simp
  from list_images_contract[of "listing_fs ?E" "''in''"] s' w obtain zs where
    zs: "mset zs = mset (filter spec_eligible ?E)"
        "sorted (map (\<lambda>e. lower (name e)) zs)"
        "list_images (listing_fs ?E) ''in'' = map (\<lambda>e. path_join (expanduser (listing_fs ?E) ''in'') (name e)) zs"
    by blast
  have l: "list_images (listing_fs ?E) ''in'' = [''in/A.jpg'', ''in/b.PNG'']"
    by code_simp
  have n: "scandir (listing_fs [\<lparr>name = ''b.PNG'', is_file = True\<rparr>])
             (expanduser (listing_fs [\<lparr>name = ''b.PNG'', is_file = True\<rparr>]) ''missing'') = None"
    by (simp add: listing_fs_def)
  from list_images_contract[of "listing_fs [\<lparr>name = ''b.PNG'', is_file = True\<rparr>]" "''missing''"] n
  have m: "list_images (listing_fs [\<lparr>name = ''b.PNG'', is_file = True\<rparr>]) ''missing'' = []"
    by blast
  from s l m show ?thesis by (intro conjI)
qed

section \<open>Properties of a run\<close>

lemma process_images_all_sections:
  "all_sections (process_images engine langs txt_dir imgs st) =
     all_sections st @ map (image_section engine langs) imgs"
  by (induction imgs arbitrary: st)
     (simp_all add: process_image_def Let_def image_section_def image_base_def)

lemma process_images_all_urls:
  "all_urls (process_images engine langs txt_dir imgs st) =
     all_urls st @ concat (map (image_occurrences engine langs) imgs)"
  by (induction imgs arbitrary: st)
     (simp_all add: process_image_def Let_def image_occurrences_def image_base_def)

lemma process_images_log:
  "log (process_images engine langs txt_dir imgs st) =
     log st @ concat (map (image_effects engine langs txt_dir) imgs)"
  by (induction imgs arbitrary: st)
     (simp_all add: process_image_def Let_def image_effects_def image_base_def)

lemma run_images_effects:
  "run_images engine langs out_dir imgs =
     Makedirs (path_join out_dir ''txt'') #
     concat (map (image_effects engine langs (path_join out_dir ''txt'')) imgs) @
     [WriteText (path_join out_dir ''all_text.md'')
        (combined_md (map (image_section engine langs) imgs)),
      WriteText (path_join out_dir ''all_text.txt'')
        (combined_txt (map (image_section engine langs) imgs)),
      WriteText (path_join out_dir ''urls.txt'')
        (urls_txt (concat (map (image_occurrences engine langs) imgs))),
      WriteText (path_join out_dir ''urls.csv'')
        (urls_csv (concat (map (image_occurrences engine langs) imgs))),
      Print (summary out_dir (length imgs))]"
  by (simp add: run_images_def Let_def process_images_log process_images_all_sections
      process_images_all_urls summary_def)

lemma run_first_write:
  assumes "list_images fs in_dir = p # ps"
  shows "run fs engine in_dir out_dir lang_str ! 2 =
           WriteText (path_join (path_join (expanduser fs out_dir) ''txt'') (image_base p @ ''.txt''))
             (ocr_with_vision engine p (parse_langs lang_str))"
  using assms by (simp add: run_def Let_def run_images_effects image_effects_def)

lemma list_images_dir_entries:
  "list_images fs in_dir =
     sort_key (\<lambda>p. lower (basename p))
       (map (\<lambda>e. path_join (expanduser fs in_dir) (name e)) (filter eligible (dir_entries fs in_dir)))"
  by (simp add: list_images_def dir_entries_def Let_def split: option.splits)

text \<open>
  C8. The claim: two runs on an unchanged input directory write the same files, because
  the images are processed in case-insensitive order of file name. The sort key is the
  lower-cased name and the sort is stable, so two files whose names differ only in case
  are processed in the order in which the directory happens to be enumerated: with
  \<open>A.png\<close> and \<open>a.png\<close> enumerated one way and then the other, the runs differ.
\<close>

theorem case_collision_counterexample:
  "mset (dir_entries (listing_fs [\<lparr>name = ''A.png'', is_file = True\<rparr>,
                                  \<lparr>name = ''a.png'', is_file = True\<rparr>]) ''in'') =
   mset (dir_entries (listing_fs [\<lparr>name = ''a.png'', is_file = True\<rparr>,
                                  \<lparr>name = ''A.png'', is_file = True\<rparr>]) ''in'') \<and>
   run (listing_fs [\<lparr>name = ''A.png'', is_file = True\<rparr>, \<lparr>name = ''a.png'', is_file = True\<rparr>])
     label_engine ''in'' ''out'' ''en-US'' \<noteq>
   run (listing_fs [\<lparr>name = ''a.png'', is_file = True\<rparr>, \<lparr>name = ''A.png'', is_file = True\<rparr>])
     label_engine ''in'' ''out'' ''en-US''"
proof -
  have 1: "mset (dir_entries (listing_fs [\<lparr>name = ''A.png'', is_file = True\<rparr>,
                                  \<lparr>name = ''a.png'', is_file = True\<rparr>]) ''in'') =
   mset (dir_entries (listing_fs [\<lparr>name = ''a.png'', is_file = True\<rparr>,
                                  \<lparr>name = ''A.png'', is_file = True\<rparr>]) ''in'')"
    by (simp add: dir_entries_def listing_fs_def)
  have 2: "list_images (listing_fs [\<lparr>name = ''A.png'', is_file = True\<rparr>, \<lparr>name = ''a.png'', is_file = True\<rparr>]) ''in''
           = [''in/A.png'', ''in/a.png'']"
    by code_simp
  have 3: "list_images (listing_fs [\<lparr>name = ''a.png'', is_file = True\<rparr>, \<lparr>name = ''A.png'', is_file = True\<rparr>]) ''in''
           = [''in/a.png'', ''in/A.png'']"
    by code_simp
  have 4: "run (listing_fs [\<lparr>name = ''A.png'', is_file = True\<rparr>, \<lparr>name = ''a.png'', is_file = True\<rparr>])
     label_engine ''in'' ''out'' ''en-US'' ! 2 =
     WriteText (path_join (path_join (expanduser (listing_fs [\<lparr>name = ''A.png'', is_file = True\<rparr>, \<lparr>name = ''a.png'', is_file = True\<rparr>]) ''out'') ''txt'') (image_base ''in/A.png'' @ ''.txt''))
       (ocr_with_vision label_engine ''in/A.png'' (parse_langs ''en-US''))"
    using 2 by (rule run_first_write)
  have 5: "run (listing_fs [\<lparr>name = ''a.png'', is_file = True\<rparr>, \<lparr>name = ''A.png'', is_file = True\<rparr>])
     label_engine ''in'' ''out'' ''en-US'' ! 2 =
     WriteText (path_join (path_join (expanduser (listing_fs [\<lparr>name = ''a.png'', is_file = True\<rparr>, \<lparr>name = ''A.png'', is_file = True\<rparr>]) ''out'') ''txt'') (image_base ''in/a.png'' @ ''.txt''))
       (ocr_with_vision label_engine ''in/a.png'' (parse_langs ''en-US''))"
    using 3 by (rule run_first_write)
  have 6: "ocr_with_vision label_engine ''in/A.png'' (parse_langs ''en-US'') = ''A.png''"
    by code_simp
  have 7: "ocr_with_vision label_engine ''in/a.png'' (parse_langs ''en-US'') = ''a.png''"
    by code_simp
  from 4 5 6 7 have "run (listing_fs [\<lparr>name = ''A.png'', is_file = True\<rparr>, \<lparr>name = ''a.png'', is_file = True\<rparr>])
     label_engine ''in'' ''out'' ''en-US'' \<noteq>
   run (listing_fs [\<lparr>name = ''a.png'', is_file = True\<rparr>, \<lparr>name = ''A.png'', is_file = True\<rparr>])
     label_engine ''in'' ''out'' ''en-US''"
    by auto
  with 1 show ?thesis by (rule conjI)
qed



text \<open>
  C8, amended. Two runs over the same directory entries, enumerated in any order, with
  the same engine and language tags, have the same effects (so the four aggregate files
  are byte-identical), provided no two eligible entries have names that are equal up to
  case.
\<close>

theorem run_enumeration_order:
  assumes "expanduser fs2 = expanduser fs1"
    and "mset (dir_entries fs2 in_dir) = mset (dir_entries fs1 in_dir)"
    and "\<forall>e \<in> set (dir_entries fs1 in_dir). CHR ''/'' \<notin> set (name e)"
    and "\<forall>a \<in> set (dir_entries fs1 in_dir). \<forall>b \<in> set (dir_entries fs1 in_dir).
           eligible a \<and> eligible b \<and> lower (name a) = lower (name b) \<longrightarrow> a = b"
  shows "run fs2 engine in_dir out_dir lang_str = run fs1 engine in_dir out_dir lang_str"
proof -
  let ?d = "expanduser fs1 in_dir"
  let ?pj = "\<lambda>e. path_join ?d (name e)"
  let ?K = "\<lambda>p. lower (basename p)"
  let ?xs = "map ?pj (filter eligible (dir_entries fs1 in_dir))"
  let ?ys = "map ?pj (filter eligible (dir_entries fs2 in_dir))"
  have m: "mset ?xs = mset ?ys" using assms(2) by simp
  have i: "inj_on ?K (set ?xs)"
  proof (rule inj_onI)
    fix p q assume p: "p \<in> set ?xs" and q: "q \<in> set ?xs" and e: "?K p = ?K q"
    from p obtain a where a: "a \<in> set (dir_entries fs1 in_dir)" "eligible a" "p = ?pj a" by auto
    from q obtain b where b: "b \<in> set (dir_entries fs1 in_dir)" "eligible b" "q = ?pj b" by auto
    from assms(3) a(1) b(1) have "basename (?pj a) = name a" "basename (?pj b) = name b"
      by (simp_all add: basename_path_join)
    with e a(3) b(3) have "lower (name a) = lower (name b)" by simp
    with assms(4) a(1,2) b(1,2) have "a = b" by blast
    with a(3) b(3) show "p = q" by simp
  qed
  from m i have "sort_key ?K ?xs = sort_key ?K ?ys" by (rule sort_key_eq_sort_key)
  then have "list_images fs2 in_dir = list_images fs1 in_dir"
    by (simp add: list_images_dir_entries assms(1))
  then show ?thesis by (simp add: run_def assms(1))
qed


theorem run_enumeration_order_witness:
  "run (listing_fs [\<lparr>name = ''b.png'', is_file = True\<rparr>, \<lparr>name = ''a.png'', is_file = True\<rparr>])
     label_engine ''in'' ''out'' ''en-US'' =
   run (listing_fs [\<lparr>name = ''a.png'', is_file = True\<rparr>, \<lparr>name = ''b.png'', is_file = True\<rparr>])
     label_engine ''in'' ''out'' ''en-US''"
proof -
  let ?a = "\<lparr>name = ''a.png'', is_file = True\<rparr>"
  let ?b = "\<lparr>name = ''b.png'', is_file = True\<rparr>"
  have d1: "dir_entries (listing_fs [?a, ?b]) ''in'' = [?a, ?b]"
    and d2: "dir_entries (listing_fs [?b, ?a]) ''in'' = [?b, ?a]"
    by (simp_all add: dir_entries_def listing_fs_def)
  have 1: "expanduser (listing_fs [?b, ?a]) = expanduser (listing_fs [?a, ?b])"
    by (simp add: listing_fs_def)
  have 2: "mset (dir_entries (listing_fs [?b, ?a]) ''in'') = mset (dir_entries (listing_fs [?a, ?b]) ''in'')"
    by (simp add: d1 d2)
  have 3: "\<forall>e \<in> set (dir_entries (listing_fs [?a, ?b]) ''in''). CHR ''/'' \<notin> set (name e)"
    by (simp add: d1)
  have l: "lower ''a.png'' \<noteq> lower ''b.png''"
    by (simp add: lower_def lower_char_def code_def)
  have 4: "\<forall>a \<in> set (dir_entries (listing_fs [?a, ?b]) ''in'').
           \<forall>b \<in> set (dir_entries (listing_fs [?a, ?b]) ''in'').
           eligible a \<and> eligible b \<and> lower (name a) = lower (name b) \<longrightarrow> a = b"
    using l by (simp add: d1)
  from 1 2 3 4 show ?thesis by (rule run_enumeration_order)
qed

lemma filter_eligible_nil: "list_images fs in_dir = [] \<longleftrightarrow> filter eligible (dir_entries fs in_dir) = []"
proof -
  have "sort_key f xs = [] \<longleftrightarrow> xs = []" for f :: "string \<Rightarrow> string" and xs
    by (metis mset_sort mset_zero_iff)
  then show ?thesis by (simp add: list_images_dir_entries)
qed

text \<open>
  C9. When the input directory holds no eligible image (or is missing, or is not a
  directory), the process creates the output directory, prints \<open>No images found.\<close> and
  nothing else, writes no file, and ends with exit status 0.
\<close>

theorem no_images_found:
  assumes "3 \<le> length argv"
    and "filter eligible (dir_entries fs (expanduser fs (argv ! 1))) = []"
  shows "main fs engine argv =
           (0, [Makedirs (expanduser fs (expanduser fs (argv ! 2))), Print ''No images found.'']) \<and>
         fst (main fs engine argv) = 0 \<and>
         printed (snd (main fs engine argv)) = [''No images found.''] \<and>
         written (snd (main fs engine argv)) = []"
proof -
  from assms(2) have "list_images fs (expanduser fs (argv ! 1)) = []"
    by (simp add: filter_eligible_nil)
  with assms(1) show ?thesis by (simp add: main_def run_def Let_def)
qed

theorem no_images_found_witness:
  "fst (main (listing_fs [\<lparr>name = ''notes.txt'', is_file = True\<rparr>]) label_engine [''app.py'', ''in'', ''out'']) = 0 \<and>
   printed (snd (main (listing_fs [\<lparr>name = ''notes.txt'', is_file = True\<rparr>]) label_engine [''app.py'', ''in'', ''out''])) =
     [''No images found.''] \<and>
   written (snd (main (listing_fs [\<lparr>name = ''notes.txt'', is_file = True\<rparr>]) label_engine [''app.py'', ''in'', ''out''])) = [] \<and>
   fst (main (listing_fs []) label_engine [''app.py'', ''missing'', ''out'']) = 0 \<and>
   printed (snd (main (listing_fs []) label_engine [''app.py'', ''missing'', ''out''])) =
     [''No images found.'']"
proof -
  let ?fs = "listing_fs [\<lparr>name = ''notes.txt'', is_file = True\<rparr>]"
  have a: "3 \<le> length [''app.py'', ''in'', ''out'']" by simp
  have b: "filter eligible (dir_entries ?fs (expanduser ?fs ([''app.py'', ''in'', ''out''] ! 1))) = []"
    by code_simp
  have a': "3 \<le> length [''app.py'', ''missing'', ''out'']" by simp
  have b': "filter eligible (dir_entries (listing_fs []) (expanduser (listing_fs []) ([''app.py'', ''missing'', ''out''] ! 1))) = []"
    by code_simp
  from no_images_found[OF a b, of label_engine] no_images_found[OF a' b', of label_engine]
  show ?thesis by blast
qed

lemma written_append: "written (xs @ ys) = written xs @ written ys"
  by (induction xs rule: written.induct) simp_all

lemma written_image_effects:
  "written (concat (map (image_effects engine langs txt_dir) imgs)) =
     map (\<lambda>q. (path_join txt_dir (image_base q @ ''.txt''), ocr_with_vision engine q langs)) imgs"
  by (induction imgs) (simp_all add: image_effects_def)

lemma written_run_images:
  "written (run_images engine langs out_dir imgs) =
     map (\<lambda>q. (path_join (path_join out_dir ''txt'') (image_base q @ ''.txt''),
                 ocr_with_vision engine q langs)) imgs @
     [(path_join out_dir ''all_text.md'', combined_md (map (image_section engine langs) imgs)),
      (path_join out_dir ''all_text.txt'', combined_txt (map (image_section engine langs) imgs)),
      (path_join out_dir ''urls.txt'', urls_txt (concat (map (image_occurrences engine langs) imgs))),
      (path_join out_dir ''urls.csv'', urls_csv (concat (map (image_occurrences engine langs) imgs)))]"
  by (simp add: run_images_effects written_append written_image_effects)

lemma ocr_failure_text:
  assumes "engine p langs = NoImage \<or> engine p langs = RequestFailed"
  shows "ocr_with_vision engine q langs = ocr_with_vision (engine(p := (\<lambda>l. Results []))) q langs"
  using assms by (auto simp: ocr_with_vision_def)

lemma extract_urls_empty: "extract_urls [] = []"
  by code_simp

text \<open>
  C7. When the engine fails on an image (no image could be read, or the request failed),
  the run is the one in which that image had no region at all: its text is empty, its
  section holds an empty fenced block and no list of links, it adds no URL; every image
  of the batch still gets its text file, and the four aggregate files follow.
\<close>

theorem ocr_failure_mid_batch:
  assumes "engine p langs = NoImage \<or> engine p langs = RequestFailed"
  shows "run_images engine langs out_dir imgs =
           run_images (engine(p := (\<lambda>l. Results []))) langs out_dir imgs \<and>
         ocr_with_vision engine p langs = [] \<and>
         image_section engine langs p =
           ''## '' @ image_base p @ [NL, NL] @ ''```'' @ [NL, NL] @ ''```'' @ [NL] \<and>
         image_occurrences engine langs p = [] \<and>
         written (run_images engine langs out_dir imgs) =
           map (\<lambda>q. (path_join (path_join out_dir ''txt'') (image_base q @ ''.txt''),
                       ocr_with_vision engine q langs)) imgs @
           [(path_join out_dir ''all_text.md'', combined_md (map (image_section engine langs) imgs)),
            (path_join out_dir ''all_text.txt'', combined_txt (map (image_section engine langs) imgs)),
            (path_join out_dir ''urls.txt'', urls_txt (concat (map (image_occurrences engine langs) imgs))),
            (path_join out_dir ''urls.csv'', urls_csv (concat (map (image_occurrences engine langs) imgs)))]"
proof -
  let ?e = "engine(p := (\<lambda>l. Results []))"
  have t: "ocr_with_vision engine q langs = ocr_with_vision ?e q langs" for q
    using assms by (rule ocr_failure_text)
  have 1: "image_effects engine langs d = image_effects ?e langs d" for d
    by (rule ext) (simp add: image_effects_def t)
  have 2: "image_section engine langs = image_section ?e langs"
    by (rule ext) (simp add: image_section_def t)
  have 3: "image_occurrences engine langs = image_occurrences ?e langs"
    by (rule ext) (simp add: image_occurrences_def t)
  have a: "run_images engine langs out_dir imgs = run_images ?e langs out_dir imgs"
    by (simp add: run_images_effects 1 2 3)
  have b: "ocr_with_vision engine p langs = []"
    using assms by (auto simp: ocr_with_vision_def)
  have c: "image_section engine langs p =
           ''## '' @ image_base p @ [NL, NL] @ ''```'' @ [NL, NL] @ ''```'' @ [NL]"
    by (simp add: image_section_def b extract_urls_empty section_md_def)
  have d: "image_occurrences engine langs p = []"
    by (simp add: image_occurrences_def b extract_urls_empty)
  from a b c d written_run_images[of engine langs out_dir imgs] show ?thesis by (intro conjI)
qed


theorem ocr_failure_mid_batch_witness:
  "map fst (take 3 (written (run_images (label_engine(''in/corrupt.png'' := (\<lambda>l. NoImage))) [''en-US'']
      ''out'' [''in/good1.png'', ''in/corrupt.png'', ''in/good2.png'']))) =
     [''out/txt/good1.txt'', ''out/txt/corrupt.txt'', ''out/txt/good2.txt''] \<and>
   written (run_images (label_engine(''in/corrupt.png'' := (\<lambda>l. NoImage))) [''en-US'']
      ''out'' [''in/good1.png'', ''in/corrupt.png'', ''in/good2.png'']) ! 1 =
     (''out/txt/corrupt.txt'', []) \<and>
   written (run_images (label_engine(''in/corrupt.png'' := (\<lambda>l. NoImage))) [''en-US'']
      ''out'' [''in/good1.png'', ''in/corrupt.png'', ''in/good2.png'']) ! 3 =
     (''out/all_text.md'',
      ''# OCR Output'' @ [NL, NL] @
      ''## good1'' @ [NL, NL] @ ''```'' @ [NL] @ ''good1.png'' @ [NL] @ ''```'' @ [NL] @
      [NL, NL] @ ''---'' @ [NL, NL] @
      ''## corrupt'' @ [NL, NL] @ ''```'' @ [NL] @ [NL] @ ''```'' @ [NL] @
      [NL, NL] @ ''---'' @ [NL, NL] @
      ''## good2'' @ [NL, NL] @ ''```'' @ [NL] @ ''good2.png'' @ [NL] @ ''```'' @ [NL] @
      [NL])"
proof -
  let ?e = "label_engine(''in/corrupt.png'' := (\<lambda>l. NoImage))"
  let ?imgs = "[''in/good1.png'', ''in/corrupt.png'', ''in/good2.png'']"
  have f: "?e ''in/corrupt.png'' [''en-US''] = NoImage \<or> ?e ''in/corrupt.png'' [''en-US''] = RequestFailed"
    by simp
  note th = ocr_failure_mid_batch[of ?e "''in/corrupt.png''" "[''en-US'']" "''out''" ?imgs, OF f]
  from th have w: "written (run_images ?e [''en-US''] ''out'' ?imgs) =
           map (\<lambda>q. (path_join (path_join ''out'' ''txt'') (image_base q @ ''.txt''),
                       ocr_with_vision ?e q [''en-US''])) ?imgs @
           [(path_join ''out'' ''all_text.md'', combined_md (map (image_section ?e [''en-US'']) ?imgs)),
            (path_join ''out'' ''all_text.txt'', combined_txt (map (image_section ?e [''en-US'']) ?imgs)),
            (path_join ''out'' ''urls.txt'', urls_txt (concat (map (image_occurrences ?e [''en-US'']) ?imgs))),
            (path_join ''out'' ''urls.csv'', urls_csv (concat (map (image_occurrences ?e [''en-US'']) ?imgs)))]"
    by blast
  from th have c: "image_section ?e [''en-US''] ''in/corrupt.png'' =
           ''## '' @ image_base ''in/corrupt.png'' @ [NL, NL] @ ''```'' @ [NL, NL] @ ''```'' @ [NL]"
    by blast
  from th have t: "ocr_with_vision ?e ''in/corrupt.png'' [''en-US''] = []" by blast
  have b: "image_base ''in/good1.png'' = ''good1''" "image_base ''in/corrupt.png'' = ''corrupt''"
    "image_base ''in/good2.png'' = ''good2''"
    by (simp_all add: image_base_def basename_def splitext_def)
  have p: "path_join ''out'' ''txt'' = ''out/txt''" "path_join ''out'' ''all_text.md'' = ''out/all_text.md''"
    "path_join ''out/txt'' ''good1.txt'' = ''out/txt/good1.txt''"
    "path_join ''out/txt'' ''corrupt.txt'' = ''out/txt/corrupt.txt''"
    "path_join ''out/txt'' ''good2.txt'' = ''out/txt/good2.txt''"
    by (simp_all add: path_join_def)
  have g1: "ocr_with_vision ?e ''in/good1.png'' [''en-US''] = ''good1.png''"
    by (simp add: ocr_with_vision_def label_engine_def basename_def)
  have g2: "ocr_with_vision ?e ''in/good2.png'' [''en-US''] = ''good2.png''"
    by (simp add: ocr_with_vision_def label_engine_def basename_def)
  have u: "extract_urls ''good1.png'' = []" "extract_urls ''good2.png'' = []"
    by code_simp+
  have s1: "image_section ?e [''en-US''] ''in/good1.png'' =
      ''## good1'' @ [NL, NL] @ ''```'' @ [NL] @ ''good1.png'' @ [NL] @ ''```'' @ [NL]"
    unfolding image_section_def g1 u b by (simp add: section_md_def)
  have s2: "image_section ?e [''en-US''] ''in/good2.png'' =
      ''## good2'' @ [NL, NL] @ ''```'' @ [NL] @ ''good2.png'' @ [NL] @ ''```'' @ [NL]"
    unfolding image_section_def g2 u b by (simp add: section_md_def)
  show ?thesis
    unfolding w by (simp add: b p t g1 g2 s1 s2 c combined_md_def separator_def)
qed

section \<open>Properties of the URL artifacts\<close>

lemma dedup_acc: "dedup occs seen acc = acc @ dedup occs seen []"
proof (induction occs arbitrary: seen acc)
  case Nil
  then show ?case by simp
next
  case (Cons o1 occs)
  obtain f u where o1: "o1 = (f, u)" by (cases o1)
  show ?case
  proof (cases "u \<in> seen")
    case True
    with Cons.IH[of seen acc] o1 show ?thesis by simp
  next
    case False
    with Cons.IH[of "insert u seen" "acc @ [u]"] Cons.IH[of "insert u seen" "[u]"] o1
    show ?thesis by simp
  qed
qed

lemma dedup_indices:
  "dedup occs seen [] =
     map (\<lambda>i. map snd occs ! i)
       (filter (\<lambda>i. map snd occs ! i \<notin> seen \<union> set (take i (map snd occs))) [0..<length occs])"
proof (induction occs arbitrary: seen)
  case Nil
  then show ?case by simp
next
  case (Cons o1 occs)
  obtain f u where o1: "o1 = (f, u)" by (cases o1)
  let ?xs = "map snd occs"
  have upt: "[0..<length (o1 # occs)] = 0 # map Suc [0..<length occs]"
    by (simp add: upt_conv_Cons map_Suc_upt del: upt_Suc)
  have rest: "map (\<lambda>i. map snd (o1 # occs) ! i)
       (filter (\<lambda>i. map snd (o1 # occs) ! i \<notin> seen \<union> set (take i (map snd (o1 # occs))))
          (map Suc [0..<length occs])) =
     map (\<lambda>i. ?xs ! i) (filter (\<lambda>i. ?xs ! i \<notin> insert u seen \<union> set (take i ?xs)) [0..<length occs])"
    by (simp add: filter_map comp_def o1 conj_ac)
  show ?case
  proof (cases "u \<in> seen")
    case True
    then have "insert u seen = seen" by auto
    with True Cons.IH[of seen] rest show ?thesis
      unfolding upt by (simp add: o1)
  next
    case False
    have "dedup (o1 # occs) seen [] = u # dedup occs (insert u seen) []"
      using False dedup_acc[of occs "insert u seen" "[u]"] by (simp add: o1)
    with False Cons.IH[of "insert u seen"] rest show ?thesis
      unfolding upt by (simp add: o1)
  qed
qed

lemma dedup_first_seen: "dedup occs {} [] = first_seen (map snd occs)"
  by (simp add: dedup_indices first_seen_def)

lemma dedup_distinct_set:
  "distinct acc \<Longrightarrow> set acc \<subseteq> seen \<Longrightarrow>
   distinct (dedup occs seen acc) \<and> set (dedup occs seen acc) = set acc \<union> (snd ` set occs - seen)"
proof (induction occs arbitrary: seen acc)
  case Nil
  then show ?case by simp
next
  case (Cons o1 occs)
  obtain f u where o1: "o1 = (f, u)" by (cases o1)
  show ?case
  proof (cases "u \<in> seen")
    case True
    with Cons.IH[OF Cons.prems] o1 show ?thesis by auto
  next
    case False
    from Cons.prems False have "distinct (acc @ [u])" "set (acc @ [u]) \<subseteq> insert u seen" by auto
    from Cons.IH[OF this] False o1 show ?thesis by auto
  qed
qed

lemma join_lines: "join [NL] ds @ (if ds \<noteq> [] then [NL] else []) = concat (map (\<lambda>u. u @ [NL]) ds)"
  by (induction "[NL]" ds rule: join.induct) simp_all

lemma writerows_concat: "writerows occs = concat (map (\<lambda>(f, u). writerow [f, u]) occs)"
  by (induction occs rule: writerows.induct) simp_all


text \<open>
  C4. \<open>urls.txt\<close> holds the distinct URLs in first-seen order, one per line;
  \<open>urls.csv\<close> holds the header and then one row per occurrence, in the order of the
  occurrences; a run writes both from the occurrences of its images in processing order.
\<close>

theorem url_artifacts:
  "urls_txt occs = concat (map (\<lambda>u. u @ [NL]) (first_seen (map snd occs))) \<and>
   distinct (first_seen (map snd occs)) \<and>
   set (first_seen (map snd occs)) = snd ` set occs \<and>
   urls_csv occs = writerow [''file'', ''url''] @ concat (map (\<lambda>(f, u). writerow [f, u]) occs) \<and>
   written (run_images engine langs out_dir imgs) ! (length imgs + 2) =
     (path_join out_dir ''urls.txt'', urls_txt (concat (map (image_occurrences engine langs) imgs))) \<and>
   written (run_images engine langs out_dir imgs) ! (length imgs + 3) =
     (path_join out_dir ''urls.csv'', urls_csv (concat (map (image_occurrences engine langs) imgs)))"
proof -
  have 1: "urls_txt occs = concat (map (\<lambda>u. u @ [NL]) (first_seen (map snd occs)))"
    using join_lines[of "dedup occs {} []"] by (simp add: urls_txt_def Let_def dedup_first_seen)
  from dedup_distinct_set[of "[]" "{}" occs]
  have 2: "distinct (first_seen (map snd occs))" and 3: "set (first_seen (map snd occs)) = snd ` set occs"
    by (simp_all add: dedup_first_seen)
  have 4: "urls_csv occs = writerow [''file'', ''url''] @ concat (map (\<lambda>(f, u). writerow [f, u]) occs)"
    by (simp add: urls_csv_def writerows_concat)
  have 5: "written (run_images engine langs out_dir imgs) ! (length imgs + 2) =
     (path_join out_dir ''urls.txt'', urls_txt (concat (map (image_occurrences engine langs) imgs)))"
    by (simp add: written_run_images nth_append)
  have 6: "written (run_images engine langs out_dir imgs) ! (length imgs + 3) =
     (path_join out_dir ''urls.csv'', urls_csv (concat (map (image_occurrences engine langs) imgs)))"
    by (simp add: written_run_images nth_append)
  from 1 2 3 4 5 6 show ?thesis by (intro conjI)
qed

theorem url_artifacts_witness:
  "urls_txt [(''img1'', ''http://a''), (''img1'', ''http://b''), (''img2'', ''http://a''),
             (''img2'', ''http://c''), (''img3'', ''http://b'')] =
     ''http://a'' @ [NL] @ ''http://b'' @ [NL] @ ''http://c'' @ [NL] \<and>
   urls_csv [(''img1'', ''http://a''), (''img1'', ''http://b''), (''img2'', ''http://a''),
             (''img2'', ''http://c''), (''img3'', ''http://b'')] =
     ''file,url'' @ [CR, NL] @ ''img1,http://a'' @ [CR, NL] @ ''img1,http://b'' @ [CR, NL] @
     ''img2,http://a'' @ [CR, NL] @ ''img2,http://c'' @ [CR, NL] @ ''img3,http://b'' @ [CR, NL]"
proof -
  let ?occs = "[(''img1'', ''http://a''), (''img1'', ''http://b''), (''img2'', ''http://a''),
             (''img2'', ''http://c''), (''img3'', ''http://b'')]"
  note th = url_artifacts[of ?occs label_engine "[]" "''out''" "[]"]
  from th have 1: "urls_txt ?occs = concat (map (\<lambda>u. u @ [NL]) (first_seen (map snd ?occs)))"
    by (rule conjunct1)
  have f: "first_seen (map snd ?occs) = [''http://a'', ''http://b'', ''http://c'']"
    by code_simp
  have 3: "urls_csv ?occs =
     ''file,url'' @ [CR, NL] @ ''img1,http://a'' @ [CR, NL] @ ''img1,http://b'' @ [CR, NL] @
     ''img2,http://a'' @ [CR, NL] @ ''img2,http://c'' @ [CR, NL] @ ''img3,http://b'' @ [CR, NL]"
    by code_simp
  from 1 f 3 show ?thesis by simp
qed

section \<open>Properties of the combined plain text\<close>




lemma splitlines_last:
  assumes "plain_line a" "a \<noteq> []"
  shows "splitlines a = [a]"
proof -
  have t: "takeWhile (\<lambda>c. \<not> is_linebreak c) a = a"
    using assms by (simp add: plain_line_def)
  have d: "dropWhile (\<lambda>c. \<not> is_linebreak c) a = []"
    using assms by (simp add: plain_line_def)
  show ?thesis
    by (subst splitlines.simps) (simp add: t d assms(2))
qed






lemma plain_line_append: "plain_line (a @ b) = (plain_line a \<and> plain_line b)"
  by (auto simp: plain_line_def)













end
